theory Spec2Isabelle
  imports Main "HOL-Library.AList" "HOL-Library.Multiset"
begin

section \<open>Data model of the oplog observe driver\<close>

text \<open>
  The development embeds \<^verbatim>\<open>packages/mongo-livedata/oplog_observe_driver.js\<close>.
  A JavaScript value is a \<open>val\<close>; an object (a document, a modifier) is an association
  list from field names to values, in insertion order. A reference that may be
  \<^verbatim>\<open>null\<close> or \<^verbatim>\<open>undefined\<close> is an \<open>option\<close>.
\<close>

datatype val =
    VUndefined
  | VNull
  | VBool bool
  | VNum int
  | VStr string
  | VObj "(string \<times> val) list"

type_synonym doc = "(string \<times> val) list"

type_synonym 'v idmap = "(val \<times> 'v) list"

type_synonym heap = "doc idmap"

type_synonym token = nat

datatype error = Error string | TypeError

datatype phase = QUERYING | FETCHING | STEADY

text \<open>
  Calls on the collaborators are logged in the order they are made: \<open>emitted\<close> holds the
  calls on the multiplexer (\<open>OnFlush ws\<close> is the registration of a flush callback that
  commits the write tokens \<open>ws\<close>), \<open>committed\<close> the calls of \<^verbatim>\<open>write.committed()\<close>,
  \<open>deferred\<close> the closures handed to \<^verbatim>\<open>Meteor.defer\<close> and the continuations of a
  suspended fiber, \<open>fetches\<close> the calls of \<^verbatim>\<open>_docFetcher.fetch\<close>.
\<close>

datatype event =
    Added val doc
  | Changed val doc
  | Removed val
  | Ready
  | OnFlush "token list"

datatype task =
    RunInitialQuery
  | PollQueryBody
  | DoneQueryingResume
  | FetchLoop
  | WriteCaughtUp token

record oplog_op =
  op_kind :: string
  op_o :: doc
  op_o2 :: doc
  op_ts :: string

record notification =
  n_op :: oplog_op
  dropCollection :: bool

text \<open>
  The cursor that \<^verbatim>\<open>_cursorForQuery\<close> builds: the options of the observed cursor
  with the limit overwritten, the fields set to the shared projection and the transform
  deleted. What the database returns for a cursor is an input of the operation that
  iterates it.
\<close>

record cursor =
  cur_limit :: nat
  cur_fieldsShared :: bool
  cur_transform :: bool

text \<open>The local variables of one round of \<^verbatim>\<open>_fetchModifiedDocuments\<close>.\<close>

record batch =
  thisGeneration :: nat
  waiting :: int
  anyError :: "error option"
  futReturned :: bool

text \<open>
  The collaborators that the driver receives at construction and never changes: the
  comparator of the sorter, the matcher, the two compiled projections and the helpers of
  minimongo. The comparator is applied to references, since the driver passes it the
  result of \<^verbatim>\<open>get\<close> unchecked in one place.
\<close>

record env =
  comparator :: "doc option \<Rightarrow> doc option \<Rightarrow> int"
  documentMatches :: "doc \<Rightarrow> bool"
  canBecomeTrueByModifier :: "doc \<Rightarrow> bool"
  projectionFn :: "doc \<Rightarrow> doc"
  sharedProjectionFn :: "doc \<Rightarrow> doc"
  makeChangedFields :: "doc \<Rightarrow> doc option \<Rightarrow> doc"
  modify :: "doc \<Rightarrow> doc \<Rightarrow> error + doc"
  idForOp :: "oplog_op \<Rightarrow> val"

record driver =
  limit :: nat
  published :: "heap option"
  unpublishedBuffer :: "heap option"
  safeAppendToBuffer :: bool
  stopped :: bool
  phase :: phase
  needToFetch :: "string idmap option"
  currentlyFetching :: "string idmap option"
  fetchGeneration :: nat
  requeryWhenDoneThisQuery :: bool
  writesToCommitWhenWeReachSteady :: "token list option"
  emitted :: "event list"
  committed :: "token list"
  deferred :: "task list"
  fetches :: "(val \<times> string \<times> nat) list"
  handlesStopped :: bool

subsection \<open>Results with errors\<close>

text \<open>
  An operation returns a value or throws. A throw rolls nothing back: the error comes with
  the state of the driver as the operation had left it when it threw.
\<close>

type_synonym 'a result = "(error \<times> driver) + 'a"

fun bindE :: "'x + 'a \<Rightarrow> ('a \<Rightarrow> 'x + 'b) \<Rightarrow> 'x + 'b" where
  "bindE (Inl e) f = Inl e"
| "bindE (Inr x) f = f x"

fun foldE :: "('a \<Rightarrow> 's \<Rightarrow> 'x + 's) \<Rightarrow> 'a list \<Rightarrow> 's \<Rightarrow> 'x + 's" where
  "foldE f [] s = Inr s"
| "foldE f (x # xs) s = bindE (f x s) (foldE f xs)"

subsection \<open>Id maps and heaps\<close>

text \<open>
  Modelled from the spec: \<^verbatim>\<open>LocalCollection._IdMap\<close>, \<^verbatim>\<open>MaxHeap\<close> and
  \<^verbatim>\<open>MinMaxHeap\<close> are not part of the sources at hand. The spec gives the heap as an
  id-indexed priority container with \<^verbatim>\<open>set\<close>, \<^verbatim>\<open>get\<close>, \<^verbatim>\<open>has\<close>,
  \<^verbatim>\<open>remove\<close>, \<^verbatim>\<open>size\<close>, \<^verbatim>\<open>minElementId\<close>, \<^verbatim>\<open>maxElementId\<close>,
  \<^verbatim>\<open>clear\<close> and \<^verbatim>\<open>forEach\<close>, ordered by the comparator. Here it is an
  association list in insertion order; \<^verbatim>\<open>set\<close> on a present id replaces the
  document in place, \<^verbatim>\<open>remove\<close> of an absent id does nothing, the extreme element
  of an empty heap is \<^verbatim>\<open>null\<close>, and among equal extreme elements the first in
  iteration order is returned.
\<close>

definition idmap_has :: "'v idmap \<Rightarrow> val \<Rightarrow> bool" where
  "idmap_has m i = (map_of m i \<noteq> None)"

definition idmap_get :: "'v idmap \<Rightarrow> val \<Rightarrow> 'v option" where
  "idmap_get m i = map_of m i"

definition idmap_set :: "val \<Rightarrow> 'v \<Rightarrow> 'v idmap \<Rightarrow> 'v idmap" where
  "idmap_set i v m = AList.update i v m"

definition idmap_remove :: "val \<Rightarrow> 'v idmap \<Rightarrow> 'v idmap" where
  "idmap_remove i m = AList.delete i m"

definition idmap_size :: "'v idmap \<Rightarrow> nat" where
  "idmap_size m = length m"

primrec extreme :: "(doc \<Rightarrow> doc \<Rightarrow> bool) \<Rightarrow> val \<times> doc \<Rightarrow> heap \<Rightarrow> val \<times> doc" where
  "extreme better b [] = b"
| "extreme better b (x # xs) = extreme better (if better (snd x) (snd b) then x else b) xs"

definition maxElementId :: "env \<Rightarrow> heap \<Rightarrow> val" where
  "maxElementId e h =
     (case h of
        [] \<Rightarrow> VNull
      | x # xs \<Rightarrow> fst (extreme (\<lambda>a b. comparator e (Some a) (Some b) > 0) x xs))"

definition minElementId :: "env \<Rightarrow> heap \<Rightarrow> val" where
  "minElementId e h =
     (case h of
        [] \<Rightarrow> VNull
      | x # xs \<Rightarrow> fst (extreme (\<lambda>a b. comparator e (Some a) (Some b) < 0) x xs))"

subsection \<open>Documents\<close>

definition doc_id :: "doc \<Rightarrow> val" where
  "doc_id d = (case map_of d ''_id'' of None \<Rightarrow> VUndefined | Some v \<Rightarrow> v)"

definition has_key :: "doc \<Rightarrow> string \<Rightarrow> bool" where
  "has_key d k = (map_of d k \<noteq> None)"

definition delete_key :: "string \<Rightarrow> doc \<Rightarrow> doc" where
  "delete_key k d = AList.delete k d"

text \<open>\<^verbatim>\<open>_.extend(a, b)\<close>: every field of \<open>b\<close> is assigned on \<open>a\<close>, in the order of \<open>b\<close>.\<close>

definition extend :: "doc \<Rightarrow> doc \<Rightarrow> doc" where
  "extend a b = fold (\<lambda>(k, v) acc. AList.update k v acc) b a"

section \<open>Cache mutators\<close>

text \<open>
  \<^verbatim>\<open>_registerPhaseChange\<close> also reports the time spent in the previous phase to the
  facts package; the clock and the counters are left out of the state.
\<close>

definition registerPhaseChange :: "phase \<Rightarrow> driver \<Rightarrow> driver" where
  "registerPhaseChange p s = s\<lparr>phase := p\<rparr>"

definition pollQuery :: "driver \<Rightarrow> driver" where
  "pollQuery s =
     (if stopped s then s
      else registerPhaseChange QUERYING
             (s\<lparr>needToFetch := Some [],
                currentlyFetching := None,
                fetchGeneration := fetchGeneration s + 1\<rparr>)
             \<lparr>deferred := deferred s @ [PollQueryBody]\<rparr>)"

definition needToPollQuery :: "driver \<Rightarrow> driver" where
  "needToPollQuery s =
     (if stopped s then s
      else if phase s \<noteq> QUERYING then pollQuery s
      else s\<lparr>requeryWhenDoneThisQuery := True\<rparr>)"

definition addBuffered :: "env \<Rightarrow> val \<Rightarrow> doc \<Rightarrow> driver \<Rightarrow> driver result" where
  "addBuffered e i d s =
     (case unpublishedBuffer s of
        None \<Rightarrow> Inl (TypeError, s)
      | Some buf \<Rightarrow>
          let buf1 = idmap_set i (sharedProjectionFn e d) buf in
          if idmap_size buf1 > limit s then
            let maxBufferedId = maxElementId e buf1 in
            Inr (s\<lparr>unpublishedBuffer := Some (idmap_remove maxBufferedId buf1),
                   safeAppendToBuffer := False\<rparr>)
          else Inr (s\<lparr>unpublishedBuffer := Some buf1\<rparr>))"

definition removeBuffered :: "val \<Rightarrow> driver \<Rightarrow> driver result" where
  "removeBuffered i s =
     (case unpublishedBuffer s of
        None \<Rightarrow> Inl (TypeError, s)
      | Some buf \<Rightarrow>
          let buf1 = idmap_remove i buf;
              s1 = s\<lparr>unpublishedBuffer := Some buf1\<rparr>
          in if idmap_size buf1 = 0 \<and> \<not> safeAppendToBuffer s then Inr (needToPollQuery s1)
             else Inr s1)"

text \<open>
  In \<^verbatim>\<open>_addPublished\<close> the overflowing document is read by \<^verbatim>\<open>get\<close> at the id that
  \<^verbatim>\<open>maxElementId\<close> returned. Were it undefined, the shared projection in
  \<^verbatim>\<open>_addBuffered\<close> would be applied to \<^verbatim>\<open>undefined\<close>, a TypeError.
\<close>

definition addPublished :: "env \<Rightarrow> val \<Rightarrow> doc \<Rightarrow> driver \<Rightarrow> driver result" where
  "addPublished e i d s =
     (case published s of
        None \<Rightarrow> Inl (TypeError, s)
      | Some pub \<Rightarrow>
          let fields = delete_key ''_id'' d;
              pub1 = idmap_set i (sharedProjectionFn e d) pub;
              s1 = s\<lparr>published := Some pub1,
                     emitted := emitted s @ [Added i (projectionFn e fields)]\<rparr>
          in if limit s \<noteq> 0 \<and> idmap_size pub1 > limit s then
               if idmap_size pub1 \<noteq> limit s + 1 then
                 Inl (Error ''After adding to published, documents are overflowing the set'', s1)
               else
                 let overflowingDocId = maxElementId e pub1;
                     overflowingDoc = idmap_get pub1 overflowingDocId
                 in if overflowingDocId = i then
                      Inl (Error ''The document just added is overflowing the published set'', s1)
                    else
                      let s2 = s1\<lparr>published := Some (idmap_remove overflowingDocId pub1),
                                     emitted := emitted s1 @ [Removed overflowingDocId]\<rparr>
                      in (case overflowingDoc of
                            None \<Rightarrow> Inl (TypeError, s2)
                          | Some od \<Rightarrow> addBuffered e overflowingDocId od s2)
             else Inr s1)"

text \<open>
  In \<^verbatim>\<open>_removePublished\<close> the promoted document is read by \<^verbatim>\<open>get\<close> at the id that
  \<^verbatim>\<open>minElementId\<close> returned. Were it undefined, \<^verbatim>\<open>_addPublished\<close> would delete a
  field of \<^verbatim>\<open>undefined\<close>, a TypeError.
\<close>

definition removePublished :: "env \<Rightarrow> val \<Rightarrow> driver \<Rightarrow> driver result" where
  "removePublished e i s =
     (case published s of
        None \<Rightarrow> Inl (TypeError, s)
      | Some pub \<Rightarrow>
          let pub1 = idmap_remove i pub;
              s1 = s\<lparr>published := Some pub1, emitted := emitted s @ [Removed i]\<rparr>
          in if limit s = 0 then Inr s1
             else if idmap_size pub1 < limit s then
               (case unpublishedBuffer s of
                  None \<Rightarrow> Inl (TypeError, s1)
                | Some buf \<Rightarrow>
                    if idmap_size buf = 0 then
                      if \<not> safeAppendToBuffer s \<and> phase s \<noteq> QUERYING then
                        Inl (Error ''At this phase, buffer can be empty only if published contains the whole matching set'', s1)
                      else Inr s1
                    else
                      let newDocId = minElementId e buf;
                          newDoc = idmap_get buf newDocId
                      in bindE (removeBuffered newDocId s1)
                           (\<lambda>s2. case newDoc of
                                   None \<Rightarrow> Inl (TypeError, s2)
                                 | Some nd \<Rightarrow> addPublished e newDocId nd s2))
             else Inr s1)"

definition changePublished :: "env \<Rightarrow> val \<Rightarrow> doc option \<Rightarrow> doc \<Rightarrow> driver \<Rightarrow> driver result" where
  "changePublished e i oldDoc newDoc s =
     (case published s of
        None \<Rightarrow> Inl (TypeError, s)
      | Some pub \<Rightarrow>
          let changed = projectionFn e (makeChangedFields e newDoc oldDoc) in
          Inr (s\<lparr>published := Some (idmap_set i (sharedProjectionFn e newDoc) pub),
                 emitted := emitted s @ (if changed = [] then [] else [Changed i changed])\<rparr>))"

text \<open>
  \<^verbatim>\<open>_addMatching\<close>. When the limit is 0 the conjunctions guarded by the limit are not
  evaluated: the buffer is not read, \<^verbatim>\<open>maxPublished\<close> and \<^verbatim>\<open>maxBuffered\<close> are
  \<^verbatim>\<open>null\<close> and \<^verbatim>\<open>toPublish\<close> is true.
\<close>

definition addMatching :: "env \<Rightarrow> doc \<Rightarrow> driver \<Rightarrow> driver result" where
  "addMatching e d s =
     (let i = doc_id d in
      case published s of
        None \<Rightarrow> Inl (TypeError, s)
      | Some pub \<Rightarrow>
          if idmap_has pub i then Inl (Error ''tried to add something already published'', s)
          else if limit s = 0 then addPublished e i d s
          else
            (case unpublishedBuffer s of
               None \<Rightarrow> Inl (TypeError, s)
             | Some buf \<Rightarrow>
                 if idmap_has buf i then
                   Inl (Error ''tried to add something already existed in buffer'', s)
                 else
                   let maxPublished =
                         (if idmap_size pub > 0 then idmap_get pub (maxElementId e pub) else None);
                       maxBuffered =
                         (if idmap_size buf > 0 then idmap_get buf (maxElementId e buf) else None);
                       toPublish =
                         (idmap_size pub < limit s \<or> comparator e (Some d) maxPublished < 0);
                       canAppendToBuffer =
                         (\<not> toPublish \<and> safeAppendToBuffer s \<and> idmap_size buf < limit s);
                       canInsertIntoBuffer =
                         (\<not> toPublish \<and> maxBuffered \<noteq> None
                            \<and> comparator e (Some d) maxBuffered \<le> 0);
                       toBuffer = (canAppendToBuffer \<or> canInsertIntoBuffer)
                   in if toPublish then addPublished e i d s
                      else if toBuffer then addBuffered e i d s
                      else Inr (s\<lparr>safeAppendToBuffer := False\<rparr>)))"

definition removeMatching :: "env \<Rightarrow> val \<Rightarrow> driver \<Rightarrow> driver result" where
  "removeMatching e i s =
     (case published s of
        None \<Rightarrow> Inl (TypeError, s)
      | Some pub \<Rightarrow>
          if \<not> idmap_has pub i \<and> limit s = 0 then
            Inl (Error ''tried to remove something matching but not cached'', s)
          else if idmap_has pub i then removePublished e i s
          else
            (case unpublishedBuffer s of
               None \<Rightarrow> Inl (TypeError, s)
             | Some buf \<Rightarrow> if idmap_has buf i then removeBuffered i s else Inr s))"

text \<open>
  \<^verbatim>\<open>_handleDoc\<close>. \<open>matching\<close> is the cloned document when \<^verbatim>\<open>matchesNow\<close> is
  true and absent otherwise, so the three branches of the source are: matching and not
  cached, cached and not matching, cached and matching. The two inner branches of the
  last one are given first, as \<open>handleDoc_published\<close> and \<open>handleDoc_buffered\<close>; the
  last \<^verbatim>\<open>else\<close> of the source (cached, yet neither published nor buffered) cannot be
  taken and throws.
\<close>

definition handleDoc_published :: "env \<Rightarrow> val \<Rightarrow> doc \<Rightarrow> heap \<Rightarrow> driver \<Rightarrow> driver result" where
  "handleDoc_published e i d pub s =
     (let oldDoc = idmap_get pub i in
      if limit s = 0 then changePublished e i oldDoc d s
      else
        case unpublishedBuffer s of
          None \<Rightarrow> Inl (TypeError, s)
        | Some buf \<Rightarrow>
            let minBuffered =
                  (if idmap_size buf \<noteq> 0 then idmap_get buf (minElementId e buf) else None);
                staysInPublished =
                  (idmap_size buf = 0 \<or> comparator e (Some d) minBuffered \<le> 0)
            in if staysInPublished then changePublished e i oldDoc d s
               else
                 bindE (removePublished e i s)
                   (\<lambda>s1. case unpublishedBuffer s1 of
                            None \<Rightarrow> Inl (TypeError, s1)
                          | Some buf1 \<Rightarrow>
                              let maxBuffered = idmap_get buf1 (maxElementId e buf1);
                                  toBuffer =
                                    (safeAppendToBuffer s1
                                       \<or> (maxBuffered \<noteq> None
                                            \<and> comparator e (Some d) maxBuffered \<le> 0))
                              in if toBuffer then addBuffered e i d s1
                                 else Inr (s1\<lparr>safeAppendToBuffer := False\<rparr>)))"

definition handleDoc_buffered :: "env \<Rightarrow> val \<Rightarrow> doc \<Rightarrow> heap \<Rightarrow> driver \<Rightarrow> driver result" where
  "handleDoc_buffered e i d pub s =
     (case unpublishedBuffer s of
        None \<Rightarrow> Inl (TypeError, s)
      | Some buf \<Rightarrow>
          let buf1 = idmap_remove i buf;
              s1 = s\<lparr>unpublishedBuffer := Some buf1\<rparr>;
              maxPublished = idmap_get pub (maxElementId e pub);
              maxBuffered =
                (if idmap_size buf1 \<noteq> 0 then idmap_get buf1 (maxElementId e buf1) else None);
              toPublish = (comparator e (Some d) maxPublished < 0);
              staysInBuffer =
                ((\<not> toPublish \<and> safeAppendToBuffer s)
                   \<or> (\<not> toPublish \<and> maxBuffered \<noteq> None
                        \<and> comparator e (Some d) maxBuffered \<le> 0))
          in if toPublish then addPublished e i d s1
             else if staysInBuffer then
               Inr (s1\<lparr>unpublishedBuffer := Some (idmap_set i d buf1)\<rparr>)
             else Inr (s1\<lparr>safeAppendToBuffer := False\<rparr>))"

definition handleDoc :: "env \<Rightarrow> val \<Rightarrow> doc option \<Rightarrow> driver \<Rightarrow> driver result" where
  "handleDoc e i newDoc s =
     (case published s of
        None \<Rightarrow> Inl (TypeError, s)
      | Some pub \<Rightarrow>
          bindE (if limit s = 0 then Inr False
                 else case unpublishedBuffer s of
                        None \<Rightarrow> Inl (TypeError, s)
                      | Some buf \<Rightarrow> Inr (idmap_has buf i))
            (\<lambda>bufferedBefore.
               let matching = (case newDoc of
                                 None \<Rightarrow> None
                               | Some d \<Rightarrow> if documentMatches e d then Some d else None);
                   publishedBefore = idmap_has pub i;
                   cachedBefore = (publishedBefore \<or> bufferedBefore)
               in case matching of
                    None \<Rightarrow> if cachedBefore then removeMatching e i s else Inr s
                  | Some d \<Rightarrow>
                      if \<not> cachedBefore then addMatching e d s
                      else if publishedBefore then handleDoc_published e i d pub s
                      else if bufferedBefore then handleDoc_buffered e i d pub s
                      else Inl (Error ''cachedBefore implies either of publishedBefore or bufferedBefore is true.'', s)))"

section \<open>Phases, oplog entries and queries\<close>

definition beSteady :: "driver \<Rightarrow> driver" where
  "beSteady s =
     (let writes = writesToCommitWhenWeReachSteady s in
      (registerPhaseChange STEADY s)
        \<lparr>writesToCommitWhenWeReachSteady := Some [],
         emitted := emitted s @ [OnFlush (case writes of None \<Rightarrow> [] | Some ws \<Rightarrow> ws)]\<rparr>)"

definition fetchModifiedDocuments :: "driver \<Rightarrow> driver" where
  "fetchModifiedDocuments s =
     (registerPhaseChange FETCHING s)\<lparr>deferred := deferred s @ [FetchLoop]\<rparr>"

text \<open>
  The closure that \<^verbatim>\<open>_fetchModifiedDocuments\<close> defers, cut where the fiber waits:
  \<open>fetchLoop_head\<close> runs from the test of the \<^verbatim>\<open>while\<close> to \<^verbatim>\<open>fut.wait()\<close> (or
  to the end, through \<^verbatim>\<open>_beSteady\<close>), \<open>fetchCallback\<close> is the callback given to
  \<^verbatim>\<open>fetch\<close>, \<open>fetchLoop_afterWait\<close> runs from the return of \<^verbatim>\<open>fut.wait()\<close> to the
  next wait.
\<close>

definition fetchLoop_head :: "driver \<Rightarrow> (driver \<times> batch option) result" where
  "fetchLoop_head s =
     (if stopped s then Inr (beSteady s, None)
      else
        case needToFetch s of
          None \<Rightarrow> Inl (TypeError, s)
        | Some ntf \<Rightarrow>
            if ntf = [] then Inr (beSteady s, None)
            else if phase s \<noteq> FETCHING then Inl (Error ''phase in fetchModifiedDocuments'', s)
            else
              let gen = fetchGeneration s + 1 in
              Inr (s\<lparr>currentlyFetching := Some ntf,
                     fetchGeneration := gen,
                     needToFetch := Some [],
                     fetches := fetches s @ map (\<lambda>(i, cacheKey). (i, cacheKey, gen)) ntf\<rparr>,
                   Some \<lparr>thisGeneration = gen, waiting = int (length ntf),
                         anyError = None, futReturned = False\<rparr>))"

definition fetchCallback ::
  "env \<Rightarrow> val \<Rightarrow> error option \<Rightarrow> doc option \<Rightarrow> driver \<times> batch \<Rightarrow> (driver \<times> batch) result" where
  "fetchCallback e i err d sb =
     (let s = fst sb; b = snd sb;
          done = (\<lambda>b1. let b2 = b1\<lparr>waiting := waiting b1 - 1\<rparr>
                       in if waiting b2 = 0 then b2\<lparr>futReturned := True\<rparr> else b2)
      in case err of
           Some x \<Rightarrow> Inr (s, done (if anyError b = None then b\<lparr>anyError := Some x\<rparr> else b))
         | None \<Rightarrow>
             if \<not> stopped s \<and> phase s = FETCHING \<and> fetchGeneration s = thisGeneration b
             then bindE (handleDoc e i d s) (\<lambda>s1. Inr (s1, done b))
             else Inr (s, done b))"

definition fetchLoop_afterWait :: "driver \<times> batch \<Rightarrow> (driver \<times> batch option) result" where
  "fetchLoop_afterWait sb =
     (let s = fst sb; b = snd sb in
      case anyError b of
        Some x \<Rightarrow> Inl (x, s)
      | None \<Rightarrow>
          if phase s = QUERYING then Inr (s, None)
          else fetchLoop_head (s\<lparr>currentlyFetching := None\<rparr>))"

definition handleOplogEntryQuerying :: "env \<Rightarrow> oplog_op \<Rightarrow> driver \<Rightarrow> driver result" where
  "handleOplogEntryQuerying e op s =
     (case needToFetch s of
        None \<Rightarrow> Inl (TypeError, s)
      | Some ntf \<Rightarrow> Inr (s\<lparr>needToFetch := Some (idmap_set (idForOp e op) (op_ts op) ntf)\<rparr>))"

text \<open>The test of the regular expression \<^verbatim>\<open>/EJSON\$/\<close>: the text occurs in the name.\<close>

fun starts_with :: "string \<Rightarrow> string \<Rightarrow> bool" where
  "starts_with [] cs = True"
| "starts_with (p # ps) [] = False"
| "starts_with (p # ps) (c # cs) = (p = c \<and> starts_with ps cs)"

fun test_EJSON :: "string \<Rightarrow> bool" where
  "test_EJSON [] = False"
| "test_EJSON (c # cs) = (starts_with ''EJSON$'' (c # cs) \<or> test_EJSON cs)"

text \<open>
  \<^verbatim>\<open>modifierCanBeDirectlyApplied\<close>. The argument of an operator of a modifier is an
  object; a value that is none has no field names to test.
\<close>

definition modifierCanBeDirectlyApplied :: "doc \<Rightarrow> bool" where
  "modifierCanBeDirectlyApplied modifier =
     list_all (\<lambda>(operation, fields).
                 case fields of
                   VObj fs \<Rightarrow> list_all (\<lambda>(field, v). \<not> test_EJSON field) fs
                 | _ \<Rightarrow> True)
              modifier"

definition queueFetch :: "val \<Rightarrow> string \<Rightarrow> driver \<Rightarrow> driver result" where
  "queueFetch i ts s =
     (case needToFetch s of
        None \<Rightarrow> Inl (TypeError, s)
      | Some ntf \<Rightarrow> Inr (s\<lparr>needToFetch := Some (idmap_set i ts ntf)\<rparr>))"

text \<open>
  \<^verbatim>\<open>_handleOplogEntrySteadyOrFetching\<close>; \<open>handleUpdate\<close> is its branch for
  \<^verbatim>\<open>op.op === 'u'\<close>. \<open>queueFetch\<close> is \<^verbatim>\<open>self._needToFetch.set(id, op.ts.toString())\<close>.
\<close>

definition handleUpdate :: "env \<Rightarrow> val \<Rightarrow> oplog_op \<Rightarrow> driver \<Rightarrow> driver result" where
  "handleUpdate e i op s =
     (let isReplace = (\<not> has_key (op_o op) ''$set'' \<and> \<not> has_key (op_o op) ''$unset'');
          canDirectlyModifyDoc = (\<not> isReplace \<and> modifierCanBeDirectlyApplied (op_o op))
      in case published s of
           None \<Rightarrow> Inl (TypeError, s)
         | Some pub \<Rightarrow>
             bindE (if limit s = 0 then Inr False
                    else case unpublishedBuffer s of
                           None \<Rightarrow> Inl (TypeError, s)
                         | Some buf \<Rightarrow> Inr (idmap_has buf i))
               (\<lambda>bufferedBefore.
                  let publishedBefore = idmap_has pub i in
                  if isReplace then handleDoc e i (Some (extend [(''_id'', i)] (op_o op))) s
                  else if (publishedBefore \<or> bufferedBefore) \<and> canDirectlyModifyDoc then
                    bindE (if idmap_has pub i then Inr (idmap_get pub i)
                           else case unpublishedBuffer s of
                                  None \<Rightarrow> Inl (TypeError, s)
                                | Some buf \<Rightarrow> Inr (idmap_get buf i))
                      (\<lambda>cached.
                         case cached of
                           None \<Rightarrow> Inl (TypeError, s)
                         | Some cachedDoc \<Rightarrow>
                             (case modify e (AList.update ''_id'' i cachedDoc) (op_o op) of
                                Inl x \<Rightarrow> Inl (x, s)
                              | Inr newDoc \<Rightarrow>
                                  handleDoc e i (Some (sharedProjectionFn e newDoc)) s))
                  else if \<not> canDirectlyModifyDoc \<or> canBecomeTrueByModifier e (op_o op) then
                    bindE (queueFetch i (op_ts op) s)
                      (\<lambda>s1. if phase s1 = STEADY then Inr (fetchModifiedDocuments s1)
                            else Inr s1)
                  else Inr s))"

definition handleOplogEntrySteadyOrFetching :: "env \<Rightarrow> oplog_op \<Rightarrow> driver \<Rightarrow> driver result" where
  "handleOplogEntrySteadyOrFetching e op s =
     (let i = idForOp e op in
      bindE (if phase s = FETCHING then
               (case currentlyFetching s of
                  Some cf \<Rightarrow>
                    if idmap_has cf i then Inr True
                    else (case needToFetch s of
                            None \<Rightarrow> Inl (TypeError, s)
                          | Some ntf \<Rightarrow> Inr (idmap_has ntf i))
                | None \<Rightarrow>
                    (case needToFetch s of
                       None \<Rightarrow> Inl (TypeError, s)
                     | Some ntf \<Rightarrow> Inr (idmap_has ntf i)))
             else Inr False)
        (\<lambda>fetchingOrQueued.
           if fetchingOrQueued then queueFetch i (op_ts op) s
           else if op_kind op = ''d'' then
             (case published s of
                None \<Rightarrow> Inl (TypeError, s)
              | Some pub \<Rightarrow>
                  if idmap_has pub i then removeMatching e i s
                  else if limit s = 0 then Inr s
                  else (case unpublishedBuffer s of
                          None \<Rightarrow> Inl (TypeError, s)
                        | Some buf \<Rightarrow> if idmap_has buf i then removeMatching e i s else Inr s))
           else if op_kind op = ''i'' then
             (case published s of
                None \<Rightarrow> Inl (TypeError, s)
              | Some pub \<Rightarrow>
                  if idmap_has pub i then
                    Inl (Error ''insert found for already-existing ID in published'', s)
                  else if (case unpublishedBuffer s of None \<Rightarrow> False | Some buf \<Rightarrow> idmap_has buf i)
                  then Inl (Error ''insert found for already-existing ID in buffer'', s)
                  else if documentMatches e (op_o op) then addMatching e (op_o op) s
                  else Inr s)
           else if op_kind op = ''u'' then handleUpdate e i op s
           else Inl (Error ''XXX SURPRISING OPERATION'', s)))"

definition onOplogEntry :: "env \<Rightarrow> notification \<Rightarrow> driver \<Rightarrow> driver result" where
  "onOplogEntry e n s =
     (if dropCollection n then Inr (needToPollQuery s)
      else if phase s = QUERYING then handleOplogEntryQuerying e (n_op n) s
      else handleOplogEntrySteadyOrFetching e (n_op n) s)"

definition cursorForQuery :: "nat \<Rightarrow> cursor" where
  "cursorForQuery lim = \<lparr>cur_limit = lim, cur_fieldsShared = True, cur_transform = False\<rparr>"

text \<open>
  \<^verbatim>\<open>_doneQuerying\<close> suspends in \<^verbatim>\<open>waitUntilCaughtUp\<close>: \<open>doneQuerying\<close> is the part
  before the wait and leaves the continuation \<open>doneQuerying_resume\<close> behind.
\<close>

definition doneQuerying :: "driver \<Rightarrow> driver" where
  "doneQuerying s =
     (if stopped s then s else s\<lparr>deferred := deferred s @ [DoneQueryingResume]\<rparr>)"

definition doneQuerying_resume :: "driver \<Rightarrow> driver result" where
  "doneQuerying_resume s =
     (if stopped s then Inr s
      else if phase s \<noteq> QUERYING then Inl (Error ''Phase unexpectedly'', s)
      else if requeryWhenDoneThisQuery s then
        Inr (pollQuery (s\<lparr>requeryWhenDoneThisQuery := False\<rparr>))
      else
        case needToFetch s of
          None \<Rightarrow> Inl (TypeError, s)
        | Some ntf \<Rightarrow> if ntf = [] then Inr (beSteady s) else Inr (fetchModifiedDocuments s))"

text \<open>
  \<^verbatim>\<open>_runInitialQuery\<close>, given what the database returns for a cursor. The iteration of
  the cursor is taken as one step: what can run while it is suspended (an oplog entry or
  a write in the phase QUERYING) touches neither the caches nor the multiplexer.
\<close>

definition runInitialQuery :: "env \<Rightarrow> (cursor \<Rightarrow> doc list) \<Rightarrow> driver \<Rightarrow> driver result" where
  "runInitialQuery e run s =
     (if stopped s then Inl (Error ''oplog stopped surprisingly early'', s)
      else
        let initialCursor = cursorForQuery (limit s * 2);
            docs = run initialCursor
        in bindE (foldE (addMatching e) docs s)
             (\<lambda>s1. let fetchedDocsCount = length docs;
                        s2 = s1\<lparr>safeAppendToBuffer := (fetchedDocsCount < limit s1 * 2)\<rparr>
                    in if stopped s2 then Inl (Error ''oplog stopped quite early'', s2)
                       else Inr (doneQuerying (s2\<lparr>emitted := emitted s2 @ [Ready]\<rparr>))))"

definition publishNewResults :: "env \<Rightarrow> doc idmap \<Rightarrow> doc idmap \<Rightarrow> driver \<Rightarrow> driver result" where
  "publishNewResults e newResults newBuffer s =
     bindE (if limit s \<noteq> 0 then
              (case unpublishedBuffer s of
                 None \<Rightarrow> Inl (TypeError, s)
               | Some buf \<Rightarrow> Inr (s\<lparr>unpublishedBuffer := Some []\<rparr>))
            else Inr s)
       (\<lambda>s1. case published s1 of
                None \<Rightarrow> Inl (TypeError, s1)
              | Some pub \<Rightarrow>
                  let idsToRemove = map fst (filter (\<lambda>(i, d). \<not> idmap_has newResults i) pub) in
                  bindE (foldE (removePublished e) idsToRemove s1)
                    (\<lambda>s2. bindE (foldE (\<lambda>(i, d). handleDoc e i (Some d)) newResults s2)
                       (\<lambda>s3. case published s3 of
                                None \<Rightarrow> Inl (TypeError, s3)
                              | Some pub3 \<Rightarrow>
                                  if idmap_size pub3 \<noteq> idmap_size newResults then
                                    Inl (Error ''failed to copy newResults into _published!'', s3)
                                  else if list_ex (\<lambda>(i, d). \<not> idmap_has newResults i) pub3 then
                                    Inl (Error ''_published has a doc that newResults doesn't'', s3)
                                  else
                                    bindE (foldE (\<lambda>(i, d). addBuffered e i d) newBuffer s3)
                                      (\<lambda>s4. Inr (s4\<lparr>safeAppendToBuffer :=
                                                        (idmap_size newBuffer < limit s4)\<rparr>)))))"

text \<open>
  The closure that \<^verbatim>\<open>_pollQuery\<close> defers. \<open>splitResults\<close> is the loop over the cursor
  with its index \<open>n\<close>.
\<close>

fun splitResults :: "nat \<Rightarrow> nat \<Rightarrow> doc list \<Rightarrow> doc idmap \<times> doc idmap \<Rightarrow> doc idmap \<times> doc idmap" where
  "splitResults lim n [] acc = acc"
| "splitResults lim n (d # ds) (newResults, newBuffer) =
     splitResults lim (n + 1) ds
       (if lim = 0 \<or> n < lim then (idmap_set (doc_id d) d newResults, newBuffer)
        else (newResults, idmap_set (doc_id d) d newBuffer))"

definition pollQueryBody :: "env \<Rightarrow> (cursor \<Rightarrow> doc list) \<Rightarrow> driver \<Rightarrow> driver result" where
  "pollQueryBody e run s =
     (let docs = run (cursorForQuery (limit s * 2));
          split = splitResults (limit s) 0 docs ([], [])
      in bindE (publishNewResults e (fst split) (snd split) s)
           (\<lambda>s1. Inr (doneQuerying s1)))"

section \<open>Write fence and stop\<close>

text \<open>
  The listener of \<^verbatim>\<open>listenAll\<close>: with a current write fence it begins a write and
  defers \<open>writeCaughtUp\<close>, which runs once the oplog has caught up.
\<close>

definition listenCallback :: "token option \<Rightarrow> driver \<Rightarrow> driver" where
  "listenCallback fence s =
     (case fence of
        None \<Rightarrow> s
      | Some w \<Rightarrow> s\<lparr>deferred := deferred s @ [WriteCaughtUp w]\<rparr>)"

definition writeCaughtUp :: "token \<Rightarrow> driver \<Rightarrow> driver result" where
  "writeCaughtUp w s =
     (if stopped s then Inr (s\<lparr>committed := committed s @ [w]\<rparr>)
      else if phase s = STEADY then Inr (s\<lparr>emitted := emitted s @ [OnFlush [w]]\<rparr>)
      else
        case writesToCommitWhenWeReachSteady s of
          None \<Rightarrow> Inl (TypeError, s)
        | Some ws \<Rightarrow> Inr (s\<lparr>writesToCommitWhenWeReachSteady := Some (ws @ [w])\<rparr>))"

definition stop :: "driver \<Rightarrow> driver" where
  "stop s =
     (if stopped s then s
      else s\<lparr>stopped := True,
             handlesStopped := True,
             committed := committed s @
               (case writesToCommitWhenWeReachSteady s of None \<Rightarrow> [] | Some ws \<Rightarrow> ws),
             writesToCommitWhenWeReachSteady := None,
             published := None,
             unpublishedBuffer := None,
             needToFetch := None,
             currentlyFetching := None\<rparr>)"

text \<open>
  The constructor, for a limit (0 when the cursor has none) and the \<^verbatim>\<open>ordered\<close>
  option; it defers \<^verbatim>\<open>_runInitialQuery\<close>.
\<close>

definition initialState :: "nat \<Rightarrow> driver" where
  "initialState lim =
     \<lparr>limit = lim,
      published = Some [],
      unpublishedBuffer = (if lim \<noteq> 0 then Some [] else None),
      safeAppendToBuffer = False,
      stopped = False,
      phase = QUERYING,
      needToFetch = Some [],
      currentlyFetching = None,
      fetchGeneration = 0,
      requeryWhenDoneThisQuery = False,
      writesToCommitWhenWeReachSteady = Some [],
      emitted = [],
      committed = [],
      deferred = [RunInitialQuery],
      fetches = [],
      handlesStopped = False\<rparr>"

definition newDriver :: "nat \<Rightarrow> bool \<Rightarrow> error + driver" where
  "newDriver lim ordered =
     (if ordered then Inl (Error ''OplogObserveDriver only supports unordered observeChanges'')
      else Inr (initialState lim))"

section \<open>Properties of states\<close>

text \<open>The published set holds at most \<open>limit\<close> documents when the query is limited.\<close>

definition publishedWithinLimit :: "driver \<Rightarrow> bool" where
  "publishedWithinLimit s =
     (case published s of
        None \<Rightarrow> True
      | Some pub \<Rightarrow> 0 < limit s \<longrightarrow> idmap_size pub \<le> limit s)"

section \<open>A concrete environment\<close>

text \<open>
  A query sorted by the numeric field \<open>n\<close>, ascending, whose selector matches the
  documents with a field \<open>n\<close>, without a fields projection.
\<close>

definition num_of :: "doc option \<Rightarrow> int" where
  "num_of r =
     (case r of
        None \<Rightarrow> 0
      | Some d \<Rightarrow> (case map_of d ''n'' of Some (VNum k) \<Rightarrow> k | _ \<Rightarrow> 0))"

definition byN :: "doc option \<Rightarrow> doc option \<Rightarrow> int" where
  "byN a b = num_of a - num_of b"

definition setFields :: "doc \<Rightarrow> doc \<Rightarrow> error + doc" where
  "setFields d m =
     (case map_of m ''$set'' of
        Some (VObj fs) \<Rightarrow> Inr (extend d fs)
      | _ \<Rightarrow> Inr d)"

definition sortedByN :: env where
  "sortedByN =
     \<lparr>comparator = byN,
      documentMatches = (\<lambda>d. has_key d ''n''),
      canBecomeTrueByModifier = (\<lambda>m. case map_of m ''$set'' of
                                        Some (VObj fs) \<Rightarrow> has_key fs ''n''
                                      | _ \<Rightarrow> False),
      projectionFn = (\<lambda>d. d),
      sharedProjectionFn = (\<lambda>d. d),
      makeChangedFields = (\<lambda>newDoc oldDoc. delete_key ''_id'' newDoc),
      modify = setFields,
      idForOp = (\<lambda>op. doc_id (if op_kind op = ''u'' then op_o2 op else op_o op))\<rparr>"

definition docN :: "int \<Rightarrow> int \<Rightarrow> doc" where
  "docN i n = [(''_id'', VNum i), (''n'', VNum n)]"


definition oneOfTen :: driver where
  "oneOfTen = (initialState 1)\<lparr>published := Some [(VNum 1, docN 1 10)]\<rparr>"

section \<open>The classification of a document that joins the matching set\<close>

text \<open>
  The three cases of the specification of \<^verbatim>\<open>addMatching\<close>, in its words: publish
  if unlimited, or \<open>published.size() < limit\<close>, or \<open>cmp(doc, maxPublished) < 0\<close>; else
  buffer if \<open>safeAppendToBuffer\<close> and \<open>buffer.size() < limit\<close>, or if \<open>maxBuffered\<close>
  exists and \<open>cmp(doc, maxBuffered) \<le> 0\<close>; else drop.
\<close>

datatype placement = ToPublish | ToBuffer | ToDrop

definition maxOf :: "env \<Rightarrow> heap \<Rightarrow> doc option" where
  "maxOf e h = (if h = [] then None else idmap_get h (maxElementId e h))"

definition minOf :: "env \<Rightarrow> heap \<Rightarrow> doc option" where
  "minOf e h = (if h = [] then None else idmap_get h (minElementId e h))"

definition placement_spec :: "env \<Rightarrow> doc \<Rightarrow> nat \<Rightarrow> bool \<Rightarrow> heap \<Rightarrow> heap \<Rightarrow> placement" where
  "placement_spec e d lim safe pub buf =
     (if lim = 0 \<or> idmap_size pub < lim \<or> comparator e (Some d) (maxOf e pub) < 0
      then ToPublish
      else if (safe \<and> idmap_size buf < lim)
              \<or> (maxOf e buf \<noteq> None \<and> comparator e (Some d) (maxOf e buf) \<le> 0)
      then ToBuffer
      else ToDrop)"

text \<open>The buffer of a driver; an unlimited query has none, which counts as empty.\<close>

definition bufferOf :: "driver \<Rightarrow> heap" where
  "bufferOf s = (case unpublishedBuffer s of None \<Rightarrow> [] | Some buf \<Rightarrow> buf)"

definition notCached :: "val \<Rightarrow> driver \<Rightarrow> bool" where
  "notCached i s =
     ((case published s of None \<Rightarrow> False | Some pub \<Rightarrow> \<not> idmap_has pub i)
      \<and> (limit s = 0
          \<or> (case unpublishedBuffer s of None \<Rightarrow> False | Some buf \<Rightarrow> \<not> idmap_has buf i)))"

definition publishedOf :: "driver \<Rightarrow> heap" where
  "publishedOf s = (case published s of None \<Rightarrow> [] | Some pub \<Rightarrow> pub)"

definition tenAndThirty :: driver where
  "tenAndThirty =
     (initialState 1)\<lparr>published := Some [(VNum 1, docN 1 10)],
                       unpublishedBuffer := Some [(VNum 3, docN 3 30)]\<rparr>"

definition steadyOne :: driver where
  "steadyOne = (initialState 1)\<lparr>published := Some [(VNum 1, docN 1 10)], phase := STEADY\<rparr>"

text \<open>No published document is above a buffered one under the comparator.\<close>

definition publishedBelowBuffer :: "env \<Rightarrow> driver \<Rightarrow> bool" where
  "publishedBelowBuffer e s =
     list_all (\<lambda>(i, p). list_all (\<lambda>(j, b). comparator e (Some p) (Some b) \<le> 0) (bufferOf s))
       (publishedOf s)"

text \<open>
  What the heaps expect of the comparator of the sorter: the sign of \<open>cmp a b\<close> is the
  opposite of the sign of \<open>cmp b a\<close>, and \<open>\<le> 0\<close> is transitive.
\<close>

definition comparatorIsOrder :: "env \<Rightarrow> bool" where
  "comparatorIsOrder e =
     ((\<forall>a b. comparator e a b < 0 \<longleftrightarrow> 0 < comparator e b a)
      \<and> (\<forall>a b c. comparator e a b \<le> 0 \<and> comparator e b c \<le> 0 \<longrightarrow> comparator e a c \<le> 0))"

text \<open>
  The shared projection keeps the order when the comparator cannot tell a document from
  its shared projection, as it is when the projection keeps every sort key.
\<close>

definition projectionKeepsOrder :: "env \<Rightarrow> bool" where
  "projectionKeepsOrder e =
     (\<forall>d r. comparator e (Some (sharedProjectionFn e d)) r = comparator e (Some d) r)"

section \<open>What an operation on the caches may touch\<close>

text \<open>
  The calls on the multiplexer that the operations on the caches make: \<^verbatim>\<open>added\<close> with
  the publish projection of a document whose \<open>_id\<close> was deleted, \<^verbatim>\<open>changed\<close> and
  \<^verbatim>\<open>removed\<close>.
\<close>

definition cacheEvent :: "env \<Rightarrow> event \<Rightarrow> bool" where
  "cacheEvent e ev =
     (case ev of
        Added i f \<Rightarrow> (\<exists>d. f = projectionFn e (delete_key ''_id'' d))
      | Changed i f \<Rightarrow> True
      | Removed i \<Rightarrow> True
      | Ready \<Rightarrow> False
      | OnFlush ws \<Rightarrow> False)"

text \<open>The write tokens held by the deferred closures of the write listener.\<close>

fun deferredTokens :: "task list \<Rightarrow> token list" where
  "deferredTokens [] = []"
| "deferredTokens (WriteCaughtUp w # ts) = w # deferredTokens ts"
| "deferredTokens (t # ts) = deferredTokens ts"

text \<open>
  \<open>cacheStep e s s'\<close>: from \<open>s\<close> to \<open>s'\<close> the limit, the stop flag, the pending and the
  committed writes, the write tokens in deferred closures and the fetch requests are the
  same, the generation has not decreased, no container was dropped, and the multiplexer
  received cache events only.
\<close>

definition cacheStep :: "env \<Rightarrow> driver \<Rightarrow> driver \<Rightarrow> bool" where
  "cacheStep e s s' =
     (limit s' = limit s
      \<and> deferredTokens (deferred s') = deferredTokens (deferred s)
      \<and> stopped s' = stopped s
      \<and> handlesStopped s' = handlesStopped s
      \<and> fetchGeneration s \<le> fetchGeneration s'
      \<and> writesToCommitWhenWeReachSteady s' = writesToCommitWhenWeReachSteady s
      \<and> committed s' = committed s
      \<and> fetches s' = fetches s
      \<and> (published s \<noteq> None \<longrightarrow> published s' \<noteq> None)
      \<and> (unpublishedBuffer s \<noteq> None \<longrightarrow> unpublishedBuffer s' \<noteq> None)
      \<and> (needToFetch s \<noteq> None \<longrightarrow> needToFetch s' \<noteq> None)
      \<and> (\<exists>evs. emitted s' = emitted s @ evs \<and> list_all (cacheEvent e) evs))"

section \<open>The table of the document classifier\<close>

text \<open>
  The two rows of the table of \<^verbatim>\<open>handleDoc\<close> for a document that matches and was
  cached, in the words of the specification. \<open>sortsNotAfter e d r\<close> is
  \<open>cmp(d, r) \<le> 0\<close> for a document \<open>r\<close> that exists.
\<close>

definition sortsNotAfter :: "env \<Rightarrow> doc \<Rightarrow> doc option \<Rightarrow> bool" where
  "sortsNotAfter e d r = (r \<noteq> None \<and> comparator e (Some d) r \<le> 0)"

definition table_published :: "env \<Rightarrow> val \<Rightarrow> doc \<Rightarrow> driver \<Rightarrow> driver result" where
  "table_published e i d s =
     (if limit s = 0 \<or> bufferOf s = [] \<or> comparator e (Some d) (minOf e (bufferOf s)) \<le> 0
      then changePublished e i (idmap_get (publishedOf s) i) d s
      else bindE (removePublished e i s)
             (\<lambda>s1. if safeAppendToBuffer s1 \<or> sortsNotAfter e d (maxOf e (bufferOf s1))
                   then addBuffered e i d s1
                   else Inr (s1\<lparr>safeAppendToBuffer := False\<rparr>)))"

definition table_buffered :: "env \<Rightarrow> val \<Rightarrow> doc \<Rightarrow> driver \<Rightarrow> driver result" where
  "table_buffered e i d s =
     (let removed = idmap_remove i (bufferOf s);
          s1 = s\<lparr>unpublishedBuffer := Some removed\<rparr>
      in if comparator e (Some d) (maxOf e (publishedOf s)) < 0 then addPublished e i d s1
         else if safeAppendToBuffer s \<or> sortsNotAfter e d (maxOf e removed)
         then Inr (s1\<lparr>unpublishedBuffer := Some (idmap_set i d removed)\<rparr>)
         else Inr (s1\<lparr>safeAppendToBuffer := False\<rparr>))"

definition tenAndTwenty :: driver where
  "tenAndTwenty =
     (initialState 1)\<lparr>published := Some [(VNum 1, docN 1 10)],
                       unpublishedBuffer := Some [(VNum 2, docN 2 20)]\<rparr>"

text \<open>Nothing of the query and fetch machinery differs between two states.\<close>

definition samePollState :: "driver \<Rightarrow> driver \<Rightarrow> bool" where
  "samePollState s s' =
     (phase s' = phase s
      \<and> deferred s' = deferred s
      \<and> fetchGeneration s' = fetchGeneration s
      \<and> requeryWhenDoneThisQuery s' = requeryWhenDoneThisQuery s
      \<and> needToFetch s' = needToFetch s
      \<and> currentlyFetching s' = currentlyFetching s)"

section \<open>The initial query in the words of the specification\<close>

text \<open>
  Run the query with the shared projection, no transform and twice the configured limit;
  call \<^verbatim>\<open>addMatching\<close> for each document; set \<open>safeAppendToBuffer\<close> to
  \<open>fetchedCount < limit \<times> 2\<close>; then call \<^verbatim>\<open>multiplexer.ready()\<close> and
  \<^verbatim>\<open>doneQuerying()\<close>.
\<close>

definition initialQuery_spec :: "env \<Rightarrow> (cursor \<Rightarrow> doc list) \<Rightarrow> driver \<Rightarrow> driver result" where
  "initialQuery_spec e run s =
     (let docs = run \<lparr>cur_limit = 2 * limit s, cur_fieldsShared = True, cur_transform = False\<rparr>
      in bindE (foldE (addMatching e) docs s)
           (\<lambda>s1. Inr (doneQuerying
                         (s1\<lparr>safeAppendToBuffer := (length docs < 2 * limit s),
                             emitted := emitted s1 @ [Ready]\<rparr>))))"

definition fourDocs :: "cursor \<Rightarrow> doc list" where
  "fourDocs c = take (cur_limit c) [docN 1 10, docN 2 20, docN 3 30, docN 4 40, docN 5 50]"

section \<open>Update entries of the oplog\<close>

text \<open>
  An update is a modifier when it carries \<open>$set\<close> or \<open>$unset\<close>, and a replacement
  otherwise. A modifier is free of markers when no field name under any of its operators
  contains the text \<open>EJSON$\<close>.
\<close>

definition isModifier :: "doc \<Rightarrow> bool" where
  "isModifier m = (has_key m ''$set'' \<or> has_key m ''$unset'')"

definition markerFree :: "doc \<Rightarrow> bool" where
  "markerFree m =
     (\<forall>(operation, fields) \<in> set m.
        case fields of
          VObj fs \<Rightarrow> \<forall>(field, v) \<in> set fs. \<not> (\<exists>p q. field = p @ ''EJSON$'' @ q)
        | _ \<Rightarrow> True)"

definition isCached :: "val \<Rightarrow> driver \<Rightarrow> bool" where
  "isCached i s =
     (idmap_has (publishedOf s) i \<or> (limit s \<noteq> 0 \<and> idmap_has (bufferOf s) i))"

definition cachedDoc :: "val \<Rightarrow> driver \<Rightarrow> doc option" where
  "cachedDoc i s =
     (if idmap_has (publishedOf s) i then idmap_get (publishedOf s) i
      else idmap_get (bufferOf s) i)"

text \<open>The id is neither queued for a fetch nor in the batch being fetched.\<close>

definition notInFetch :: "val \<Rightarrow> driver \<Rightarrow> bool" where
  "notInFetch i s =
     ((case needToFetch s of None \<Rightarrow> False | Some ntf \<Rightarrow> \<not> idmap_has ntf i)
      \<and> (case currentlyFetching s of None \<Rightarrow> True | Some cf \<Rightarrow> \<not> idmap_has cf i))"

definition updateOp :: "int \<Rightarrow> doc \<Rightarrow> oplog_op" where
  "updateOp i m = \<lparr>op_kind = ''u'', op_o = m, op_o2 = [(''_id'', VNum i)], op_ts = ''ts''\<rparr>"

section \<open>The steps of a driver\<close>

text \<open>
  The code of the driver runs in pieces that do not yield: the callback of the oplog, the
  listener of writes, each closure given to \<^verbatim>\<open>Meteor.defer\<close> up to the point where
  its fiber waits, each continuation after a wait, the callback of a fetch, and
  \<^verbatim>\<open>stop\<close>. A deferred closure or a continuation runs once, when it is among the
  pending ones; \<open>takeTask\<close> removes it. The callback of a fetch runs for a request that
  was issued, with the generation of its batch; the other local variables of the batch are
  not followed from step to step. A step is a piece that returned or threw: a piece that
  throws ends there, and the driver goes on from the state that it had reached (the rules
  whose names end in \<open>Threw\<close>). The second argument of \<open>driver_step\<close> lists the
  write tokens that the step took from a write fence.
\<close>

definition takeTask :: "task \<Rightarrow> driver \<Rightarrow> driver" where
  "takeTask t s = s\<lparr>deferred := remove1 t (deferred s)\<rparr>"

inductive driver_step :: "env \<Rightarrow> token list \<Rightarrow> driver \<Rightarrow> driver \<Rightarrow> bool" for e :: env where
  oplogEntry: "\<not> handlesStopped s \<Longrightarrow> onOplogEntry e n s = Inr s' \<Longrightarrow> driver_step e [] s s'"
| listened: "\<not> handlesStopped s \<Longrightarrow> driver_step e (case fence of None \<Rightarrow> [] | Some w \<Rightarrow> [w]) s
             (listenCallback fence s)"
| written: "WriteCaughtUp w \<in> set (deferred s) \<Longrightarrow>
            writeCaughtUp w (takeTask (WriteCaughtUp w) s) = Inr s' \<Longrightarrow> driver_step e [] s s'"
| initialQuery: "RunInitialQuery \<in> set (deferred s) \<Longrightarrow>
            runInitialQuery e run (takeTask RunInitialQuery s) = Inr s' \<Longrightarrow> driver_step e [] s s'"
| polled: "PollQueryBody \<in> set (deferred s) \<Longrightarrow>
            pollQueryBody e run (takeTask PollQueryBody s) = Inr s' \<Longrightarrow> driver_step e [] s s'"
| resumed: "DoneQueryingResume \<in> set (deferred s) \<Longrightarrow>
            doneQuerying_resume (takeTask DoneQueryingResume s) = Inr s' \<Longrightarrow>
            driver_step e [] s s'"
| loopHead: "FetchLoop \<in> set (deferred s) \<Longrightarrow>
            fetchLoop_head (takeTask FetchLoop s) = Inr (s', b) \<Longrightarrow> driver_step e [] s s'"
| fetched: "(i, cacheKey, thisGeneration b) \<in> set (fetches s) \<Longrightarrow>
            fetchCallback e i err d (s, b) = Inr (s', b') \<Longrightarrow> driver_step e [] s s'"
| afterWait: "fetchLoop_afterWait (s, b) = Inr (s', b') \<Longrightarrow> driver_step e [] s s'"
| stopping: "driver_step e [] s (stop s)"
| oplogEntryThrew: "\<not> handlesStopped s \<Longrightarrow> onOplogEntry e n s = Inl (x, s') \<Longrightarrow>
            driver_step e [] s s'"
| writtenThrew: "WriteCaughtUp w \<in> set (deferred s) \<Longrightarrow>
            writeCaughtUp w (takeTask (WriteCaughtUp w) s) = Inl (x, s') \<Longrightarrow>
            driver_step e [] s s'"
| initialQueryThrew: "RunInitialQuery \<in> set (deferred s) \<Longrightarrow>
            runInitialQuery e run (takeTask RunInitialQuery s) = Inl (x, s') \<Longrightarrow>
            driver_step e [] s s'"
| polledThrew: "PollQueryBody \<in> set (deferred s) \<Longrightarrow>
            pollQueryBody e run (takeTask PollQueryBody s) = Inl (x, s') \<Longrightarrow>
            driver_step e [] s s'"
| resumedThrew: "DoneQueryingResume \<in> set (deferred s) \<Longrightarrow>
            doneQuerying_resume (takeTask DoneQueryingResume s) = Inl (x, s') \<Longrightarrow>
            driver_step e [] s s'"
| loopHeadThrew: "FetchLoop \<in> set (deferred s) \<Longrightarrow>
            fetchLoop_head (takeTask FetchLoop s) = Inl (x, s') \<Longrightarrow> driver_step e [] s s'"
| fetchedThrew: "(i, cacheKey, thisGeneration b) \<in> set (fetches s) \<Longrightarrow>
            fetchCallback e i err d (s, b) = Inl (x, s') \<Longrightarrow> driver_step e [] s s'"
| afterWaitThrew: "fetchLoop_afterWait (s, b) = Inl (x, s') \<Longrightarrow> driver_step e [] s s'"

text \<open>A run is a sequence of steps; it lists the tokens taken, in order.\<close>

inductive driver_run :: "env \<Rightarrow> token list \<Rightarrow> driver \<Rightarrow> driver \<Rightarrow> bool" for e :: env where
  start: "driver_run e [] s s"
| more: "driver_run e ws s s1 \<Longrightarrow> driver_step e vs s1 s2 \<Longrightarrow> driver_run e (ws @ vs) s s2"

text \<open>
  Where the write tokens of a state are: in a deferred \<open>writeCaughtUp\<close>, in the list
  \<open>writesToCommitWhenWeReachSteady\<close>, in a flush callback registered with the
  multiplexer, or committed.
\<close>

definition pendingWrites :: "driver \<Rightarrow> token list" where
  "pendingWrites s = (case writesToCommitWhenWeReachSteady s of None \<Rightarrow> [] | Some ws \<Rightarrow> ws)"

fun flushTokens :: "event list \<Rightarrow> token list" where
  "flushTokens [] = []"
| "flushTokens (OnFlush ws # evs) = ws @ flushTokens evs"
| "flushTokens (ev # evs) = flushTokens evs"

definition tokensOf :: "driver \<Rightarrow> token multiset" where
  "tokensOf s =
     mset (deferredTokens (deferred s)) + mset (pendingWrites s)
       + mset (flushTokens (emitted s)) + mset (committed s)"

text \<open>A call of \<^verbatim>\<open>added\<close> whose fields have no \<open>_id\<close>.\<close>

definition addedWithoutId :: "event \<Rightarrow> bool" where
  "addedWithoutId ev = (case ev of Added i f \<Rightarrow> \<not> has_key f ''_id'' | _ \<Rightarrow> True)"

text \<open>
  What is expected of the compiled publish projection: it does not invent an \<open>_id\<close>
  for a document that has none.
\<close>

definition projectionAddsNoId :: "env \<Rightarrow> bool" where
  "projectionAddsNoId e = (\<forall>d. \<not> has_key d ''_id'' \<longrightarrow> \<not> has_key (projectionFn e d) ''_id'')"

text \<open>
  \<open>quietStep\<close>: only the phase, the fetch queues, the generation, the requery flag and the
  deferred work may differ, the generation has not decreased and the deferred closures hold
  the same write tokens.
\<close>

definition quietStep :: "driver \<Rightarrow> driver \<Rightarrow> bool" where
  "quietStep s s' =
     (limit s' = limit s
      \<and> published s' = published s
      \<and> unpublishedBuffer s' = unpublishedBuffer s
      \<and> safeAppendToBuffer s' = safeAppendToBuffer s
      \<and> stopped s' = stopped s
      \<and> handlesStopped s' = handlesStopped s
      \<and> writesToCommitWhenWeReachSteady s' = writesToCommitWhenWeReachSteady s
      \<and> committed s' = committed s
      \<and> emitted s' = emitted s
      \<and> fetches s' = fetches s
      \<and> deferredTokens (deferred s') = deferredTokens (deferred s)
      \<and> fetchGeneration s \<le> fetchGeneration s'
      \<and> (needToFetch s \<noteq> None \<longrightarrow> needToFetch s' \<noteq> None))"

text \<open>\<open>okStep\<close>: a step within the footprint of the caches that keeps the published set within the limit.\<close>

definition okStep :: "env \<Rightarrow> driver \<Rightarrow> driver \<Rightarrow> bool" where
  "okStep e s s' = (cacheStep e s s' \<and> (publishedWithinLimit s \<longrightarrow> publishedWithinLimit s'))"

text \<open>
  \<open>stepFacts e s s'\<close> collects what holds from the state before a piece of code to the
  state it leaves, returning or throwing: the limit is the same; the generation has not
  decreased; the list of pending writes is dropped by \<^verbatim>\<open>stop\<close> only; every new call
  of \<^verbatim>\<open>added\<close> passes the publish
  projection of a document without \<open>_id\<close>; and unless the driver ends in the phase STEADY
  or stopped, the pending writes have only grown at the end, nothing was committed and no
  flush callback was registered.
\<close>

definition driverEvent :: "env \<Rightarrow> event \<Rightarrow> bool" where
  "driverEvent e ev =
     (case ev of Added i f \<Rightarrow> (\<exists>d. f = projectionFn e (delete_key ''_id'' d)) | _ \<Rightarrow> True)"

definition stepFacts :: "env \<Rightarrow> driver \<Rightarrow> driver \<Rightarrow> bool" where
  "stepFacts e s s' =
     (limit s' = limit s
      \<and> fetchGeneration s \<le> fetchGeneration s'
      \<and> (writesToCommitWhenWeReachSteady s \<noteq> None \<or> stopped s \<longrightarrow>
            writesToCommitWhenWeReachSteady s' \<noteq> None \<or> stopped s')
      \<and> (\<exists>evs. emitted s' = emitted s @ evs \<and> list_all (driverEvent e) evs)
      \<and> (phase s' \<noteq> STEADY \<and> \<not> stopped s' \<longrightarrow>
            (\<exists>ws. pendingWrites s' = pendingWrites s @ ws)
            \<and> committed s' = committed s
            \<and> flushTokens (emitted s') = flushTokens (emitted s)))"

section \<open>An example run\<close>

text \<open>
  A run of a driver with limit 1 under \<open>sortedByN\<close>. A write with token 7 is listened
  to and caught up during the initial query, which finds two documents; the driver becomes
  steady; an update of an uncached document is queued and its fetch is issued with
  generation 1; the collection is dropped, which starts a poll; the answer of the fetch
  arrives; a write with token 8 is caught up during the poll; the driver is stopped.
\<close>

definition exListened :: driver where
  "exListened = (initialState 1)\<lparr>deferred := [RunInitialQuery, WriteCaughtUp 7]\<rparr>"

definition exPending :: driver where
  "exPending = (initialState 1)\<lparr>writesToCommitWhenWeReachSteady := Some [7]\<rparr>"

definition exQueried :: driver where
  "exQueried =
     exPending\<lparr>published := Some [(VNum 1, docN 1 10)],
               emitted := [Added (VNum 1) [(''n'', VNum 10)], Ready],
               deferred := [DoneQueryingResume]\<rparr>"

definition exSteady :: driver where
  "exSteady =
     exQueried\<lparr>phase := STEADY,
               writesToCommitWhenWeReachSteady := Some [],
               emitted := [Added (VNum 1) [(''n'', VNum 10)], Ready, OnFlush [7]],
               deferred := []\<rparr>"

definition exQueued :: driver where
  "exQueued =
     exSteady\<lparr>needToFetch := Some [(VNum 5, ''ts'')], phase := FETCHING,
              deferred := [FetchLoop]\<rparr>"

definition exFetching :: driver where
  "exFetching =
     exQueued\<lparr>currentlyFetching := Some [(VNum 5, ''ts'')],
              fetchGeneration := 1,
              needToFetch := Some [],
              fetches := [(VNum 5, ''ts'', 1)],
              deferred := []\<rparr>"

definition exBatch :: batch where
  "exBatch = \<lparr>thisGeneration = 1, waiting = 1, anyError = None, futReturned = False\<rparr>"

definition exPolling :: driver where
  "exPolling =
     exFetching\<lparr>currentlyFetching := None, fetchGeneration := 2, phase := QUERYING,
                deferred := [PollQueryBody]\<rparr>"

definition exListenedAgain :: driver where
  "exListenedAgain = exPolling\<lparr>deferred := [PollQueryBody, WriteCaughtUp 8]\<rparr>"

definition exPendingAgain :: driver where
  "exPendingAgain = exPolling\<lparr>writesToCommitWhenWeReachSteady := Some [8]\<rparr>"

definition exStopped :: driver where
  "exStopped =
     exPendingAgain\<lparr>stopped := True,
                    handlesStopped := True,
                    committed := [8],
                    writesToCommitWhenWeReachSteady := None,
                    published := None,
                    unpublishedBuffer := None,
                    needToFetch := None,
                    currentlyFetching := None\<rparr>"

definition dropped :: notification where
  "dropped = \<lparr>n_op = updateOp 0 [], dropCollection = True\<rparr>"

definition updated :: notification where
  "updated = \<lparr>n_op = updateOp 5 [(''$set'', VObj [(''n'', VNum 5)])], dropCollection = False\<rparr>"

section \<open>A query whose shared projection drops the sort key\<close>

text \<open>
  A limited query sorted by \<open>n\<close> descending and then by \<open>_id\<close>, with the fields option
  \<open>{a: 1}\<close> and a selector that matches every document. The constructor builds the
  shared projection from the fields option and the paths of the selector only, so it
  keeps \<open>_id\<close> and \<open>a\<close> and drops \<open>n\<close>. In the comparator a document without \<open>n\<close>
  comes after those that have one, as an undefined value does in a descending sort.
\<close>

definition sortKey :: "doc option \<Rightarrow> int option" where
  "sortKey r =
     (case r of
        None \<Rightarrow> None
      | Some d \<Rightarrow> (case map_of d ''n'' of Some (VNum k) \<Rightarrow> Some k | _ \<Rightarrow> None))"

definition idKey :: "doc option \<Rightarrow> int" where
  "idKey r =
     (case r of
        None \<Rightarrow> 0
      | Some d \<Rightarrow> (case map_of d ''_id'' of Some (VNum k) \<Rightarrow> k | _ \<Rightarrow> 0))"

definition byNDescThenId :: "doc option \<Rightarrow> doc option \<Rightarrow> int" where
  "byNDescThenId a b =
     (case sortKey a of
        Some x \<Rightarrow> (case sortKey b of
                     Some y \<Rightarrow> if x = y then idKey a - idKey b else y - x
                   | None \<Rightarrow> - 1)
      | None \<Rightarrow> (case sortKey b of
                   Some y \<Rightarrow> 1
                 | None \<Rightarrow> idKey a - idKey b))"

definition keepIdAndA :: "doc \<Rightarrow> doc" where
  "keepIdAndA d = filter (\<lambda>(k, v). k = ''_id'' \<or> k = ''a'') d"

definition keyDropped :: env where
  "keyDropped =
     \<lparr>comparator = byNDescThenId,
      documentMatches = (\<lambda>d. True),
      canBecomeTrueByModifier = (\<lambda>m. True),
      projectionFn = keepIdAndA,
      sharedProjectionFn = keepIdAndA,
      makeChangedFields = (\<lambda>newDoc oldDoc. delete_key ''_id'' newDoc),
      modify = setFields,
      idForOp = (\<lambda>op. doc_id (if op_kind op = ''u'' then op_o2 op else op_o op))\<rparr>"

text \<open>
  The collection holds one document, with \<open>n = 3\<close>; the database answers the query with
  its shared projection. Then a document with \<open>n = 5\<close> is inserted.
\<close>

definition kdFound :: "cursor \<Rightarrow> doc list" where
  "kdFound c = [[(''_id'', VNum 1), (''a'', VNum 0)]]"

definition kdQueried :: driver where
  "kdQueried =
     (initialState 1)\<lparr>published := Some [(VNum 1, [(''_id'', VNum 1), (''a'', VNum 0)])],
                       safeAppendToBuffer := True,
                       emitted := [Added (VNum 1) [(''a'', VNum 0)], Ready],
                       deferred := [DoneQueryingResume]\<rparr>"

definition kdSteady :: driver where
  "kdSteady =
     kdQueried\<lparr>phase := STEADY,
               emitted := [Added (VNum 1) [(''a'', VNum 0)], Ready, OnFlush []],
               deferred := []\<rparr>"

definition kdInsert :: notification where
  "kdInsert =
     \<lparr>n_op = \<lparr>op_kind = ''i'', op_o = [(''_id'', VNum 2), (''n'', VNum 5), (''a'', VNum 0)],
              op_o2 = [], op_ts = ''ts''\<rparr>,
      dropCollection = False\<rparr>"

definition kdThrown :: driver where
  "kdThrown =
     kdSteady\<lparr>published := Some [(VNum 1, [(''_id'', VNum 1), (''a'', VNum 0)]),
                                 (VNum 2, [(''_id'', VNum 2), (''a'', VNum 0)])],
              emitted := [Added (VNum 1) [(''a'', VNum 0)], Ready, OnFlush [],
                          Added (VNum 2) [(''a'', VNum 0)]]\<rparr>"

section \<open>A delete after the initial query\<close>

text \<open>The oplog entry of the deletion of the document with \<open>_id\<close> 1.\<close>

definition deleted :: notification where
  "deleted =
     \<lparr>n_op = \<lparr>op_kind = ''d'', op_o = [(''_id'', VNum 1)], op_o2 = [], op_ts = ''ts''\<rparr>,
      dropCollection = False\<rparr>"

section \<open>A write that is caught up late\<close>




section \<open>Basic facts\<close>

lemmas idmap_defs = idmap_has_def idmap_get_def idmap_set_def idmap_remove_def idmap_size_def

lemmas example_defs = sortedByN_def byN_def num_of_def docN_def doc_id_def delete_key_def
  has_key_def maxElementId_def minElementId_def initialState_def setFields_def extend_def


lemma bindE_Inr_iff: "bindE m f = Inr y \<longleftrightarrow> (\<exists>x. m = Inr x \<and> f x = Inr y)"
  by (cases m) auto

lemma bindE_Inr_iff2: "Inr y = bindE m f \<longleftrightarrow> (\<exists>x. m = Inr x \<and> f x = Inr y)"
  by (cases m) auto

lemma extreme_mem: "extreme better b xs \<in> set (b # xs)"
  by (induction xs arbitrary: b) (auto split: if_splits)

lemma maxElementId_mem: "h \<noteq> [] \<Longrightarrow> maxElementId e h \<in> fst ` set h"
proof (cases h)
  case (Cons x xs)
  then show ?thesis
    unfolding maxElementId_def using extreme_mem[of _ x xs] by (simp del: set_simps)
qed simp

lemma minElementId_mem: "h \<noteq> [] \<Longrightarrow> minElementId e h \<in> fst ` set h"
proof (cases h)
  case (Cons x xs)
  then show ?thesis
    unfolding minElementId_def using extreme_mem[of _ x xs] by (simp del: set_simps)
qed simp

lemma size_set_le: "idmap_size (idmap_set i v m) \<le> Suc (idmap_size m)"
  unfolding idmap_size_def idmap_set_def by (induction m) auto

lemma size_set_has: "idmap_has m i \<Longrightarrow> idmap_size (idmap_set i v m) = idmap_size m"
  unfolding idmap_size_def idmap_set_def idmap_has_def by (induction m) (auto split: if_splits)

lemma size_remove_le: "idmap_size (idmap_remove i m) \<le> idmap_size m"
  unfolding idmap_size_def idmap_remove_def by (rule length_delete_le)

lemma size_remove_less: "i \<in> fst ` set m \<Longrightarrow> idmap_size (idmap_remove i m) < idmap_size m"
  unfolding idmap_size_def idmap_remove_def AList.delete_eq
  by (auto intro: length_filter_less)

lemma needToPollQuery_frame:
  "published (needToPollQuery s) = published s" "limit (needToPollQuery s) = limit s"
  "unpublishedBuffer (needToPollQuery s) = unpublishedBuffer s"
  by (auto simp: needToPollQuery_def pollQuery_def registerPhaseChange_def)

lemma addBuffered_frame:
  "addBuffered e i d s = Inr s' \<Longrightarrow> published s' = published s \<and> limit s' = limit s"
  by (auto simp: addBuffered_def Let_def split: option.splits if_splits)

lemma removeBuffered_frame:
  "removeBuffered i s = Inr s' \<Longrightarrow> published s' = published s \<and> limit s' = limit s"
  by (auto simp: removeBuffered_def Let_def needToPollQuery_frame split: option.splits if_splits)

lemma addPublished_within:
  assumes "addPublished e i d s = Inr s'" "publishedWithinLimit s"
  shows "publishedWithinLimit s'" "limit s' = limit s"
proof -
  obtain pub where pub: "published s = Some pub"
    using assms(1) by (auto simp: addPublished_def split: option.splits)
  let ?pub1 = "idmap_set i (sharedProjectionFn e d) pub"
  show "publishedWithinLimit s'" "limit s' = limit s"
  proof (atomize(full), cases "limit s \<noteq> 0 \<and> idmap_size ?pub1 > limit s")
    case False
    then show "publishedWithinLimit s' \<and> limit s' = limit s" using assms pub
      by (auto simp: addPublished_def Let_def publishedWithinLimit_def)
  next
    case True
    let ?m = "maxElementId e ?pub1"
    have ne: "?pub1 \<noteq> []" by (simp add: idmap_set_def)
    have "idmap_size (idmap_remove ?m ?pub1) < idmap_size ?pub1"
      by (rule size_remove_less) (rule maxElementId_mem[OF ne])
    moreover have "idmap_size ?pub1 \<le> Suc (limit s)"
      using assms(2) pub size_set_le[of i _ pub] True
      by (auto simp: publishedWithinLimit_def intro: le_trans)
    ultimately have le: "idmap_size (idmap_remove ?m ?pub1) \<le> limit s" by linarith
    from assms(1) pub True obtain s1 od where
      "addBuffered e ?m od s1 = Inr s'" "published s1 = Some (idmap_remove ?m ?pub1)" "limit s1 = limit s"
      by (auto simp: addPublished_def Let_def split: if_splits option.splits)
    then show "publishedWithinLimit s' \<and> limit s' = limit s" using le addBuffered_frame
      by (fastforce simp: publishedWithinLimit_def)
  qed
qed



lemma publishedWithinLimit_iff:
  "publishedWithinLimit s \<longleftrightarrow> (\<forall>pub. published s = Some pub \<longrightarrow> 0 < limit s \<longrightarrow> idmap_size pub \<le> limit s)"
  by (simp add: publishedWithinLimit_def split: option.splits)

lemma within_cong:
  "publishedWithinLimit s \<Longrightarrow> published s' = published s \<Longrightarrow> limit s' = limit s \<Longrightarrow> publishedWithinLimit s'"
  by (simp add: publishedWithinLimit_iff)

lemma addBuffered_within:
  "addBuffered e i d s = Inr s' \<Longrightarrow> publishedWithinLimit s \<Longrightarrow> publishedWithinLimit s' \<and> limit s' = limit s"
  using addBuffered_frame[of e i d s s'] by (simp add: publishedWithinLimit_iff)

lemma removeBuffered_within:
  "removeBuffered i s = Inr s' \<Longrightarrow> publishedWithinLimit s \<Longrightarrow> publishedWithinLimit s' \<and> limit s' = limit s"
  using removeBuffered_frame[of i s s'] by (simp add: publishedWithinLimit_iff)

lemma removed_within:
  assumes "publishedWithinLimit s" "published s = Some pub"
  shows "publishedWithinLimit (s\<lparr>published := Some (idmap_remove i pub), emitted := ev\<rparr>)"
  using assms size_remove_le[of i pub] by (auto simp: publishedWithinLimit_iff intro: le_trans)


lemma removePublished_cases:
  assumes "published s = Some pub"
  shows "removePublished e i s =
           Inr (s\<lparr>published := Some (idmap_remove i pub), emitted := emitted s @ [Removed i]\<rparr>)
       \<or> (\<exists>buf. unpublishedBuffer s = Some buf \<and> removePublished e i s =
             bindE (removeBuffered (minElementId e buf)
                      (s\<lparr>published := Some (idmap_remove i pub), emitted := emitted s @ [Removed i]\<rparr>))
               (\<lambda>s2. case idmap_get buf (minElementId e buf) of None \<Rightarrow> Inl (TypeError, s2)
                                         | Some nd \<Rightarrow> addPublished e (minElementId e buf) nd s2))
       \<or> (\<exists>err. removePublished e i s = Inl err)"
  using assms by (simp add: removePublished_def Let_def split: option.splits)

lemma removePublished_within:
  assumes "removePublished e i s = Inr s'" "publishedWithinLimit s"
  shows "publishedWithinLimit s' \<and> limit s' = limit s"
proof -
  obtain pub where pub: "published s = Some pub"
    using assms(1) by (cases "published s") (simp_all add: removePublished_def)
  let ?s1 = "s\<lparr>published := Some (idmap_remove i pub), emitted := emitted s @ [Removed i]\<rparr>"
  have s1: "publishedWithinLimit ?s1" "limit ?s1 = limit s"
    using removed_within[OF assms(2) pub] by simp_all
  from removePublished_cases[OF pub, of e i] assms(1) consider "s' = ?s1"
    | s2 nd j where "removeBuffered j ?s1 = Inr s2" "addPublished e j nd s2 = Inr s'"
    by (auto simp: bindE_Inr_iff bindE_Inr_iff2 split: option.splits)
  then show ?thesis
  proof cases
    case 1
    then show ?thesis using s1 by simp
  next
    case 2
    then show ?thesis
      using removeBuffered_within[OF 2(1) s1(1)] s1(2) addPublished_within[OF 2(2)] by simp
  qed
qed

lemma addMatching_cases:
  "addMatching e d s = addPublished e (doc_id d) d s
   \<or> addMatching e d s = addBuffered e (doc_id d) d s
   \<or> addMatching e d s = Inr (s\<lparr>safeAppendToBuffer := False\<rparr>)
   \<or> (\<exists>err. addMatching e d s = Inl err)"
  by (simp add: addMatching_def Let_def split: option.splits)

lemma removeMatching_cases:
  "removeMatching e i s = removePublished e i s
   \<or> removeMatching e i s = removeBuffered i s
   \<or> removeMatching e i s = Inr s
   \<or> (\<exists>err. removeMatching e i s = Inl err)"
  by (simp add: removeMatching_def Let_def split: option.splits)

lemma addMatching_within:
  assumes "addMatching e d s = Inr s'" "publishedWithinLimit s"
  shows "publishedWithinLimit s' \<and> limit s' = limit s"
proof -
  from addMatching_cases[of e d s] assms(1) consider "addPublished e (doc_id d) d s = Inr s'"
    | "addBuffered e (doc_id d) d s = Inr s'"
    | "s' = s\<lparr>safeAppendToBuffer := False\<rparr>"
    by auto
  then show ?thesis
  proof cases
    case 1 then show ?thesis using addPublished_within[OF 1 assms(2)] by simp
  next
    case 2 then show ?thesis using addBuffered_within[OF 2 assms(2)] by simp
  next
    case 3 then show ?thesis using assms(2) by (simp add: publishedWithinLimit_iff)
  qed
qed

lemma removeMatching_within:
  assumes "removeMatching e i s = Inr s'" "publishedWithinLimit s"
  shows "publishedWithinLimit s' \<and> limit s' = limit s"
proof -
  from removeMatching_cases[of e i s] assms(1) consider "removePublished e i s = Inr s'"
    | "removeBuffered i s = Inr s'"
    | "s' = s"
    by auto
  then show ?thesis
  proof cases
    case 1 then show ?thesis using removePublished_within[OF 1 assms(2)] by simp
  next
    case 2 then show ?thesis using removeBuffered_within[OF 2 assms(2)] by simp
  next
    case 3 then show ?thesis using assms(2) by simp
  qed
qed

lemma changePublished_within:
  assumes "changePublished e i oldDoc d s = Inr s'" "publishedWithinLimit s"
    "published s = Some pub" "idmap_has pub i"
  shows "publishedWithinLimit s' \<and> limit s' = limit s"
  using assms
  by (auto simp: changePublished_def Let_def publishedWithinLimit_iff size_set_has)

lemma handleDoc_published_cases:
  "handleDoc_published e i d pub s = changePublished e i (idmap_get pub i) d s
   \<or> handleDoc_published e i d pub s =
        bindE (removePublished e i s)
          (\<lambda>s1. case unpublishedBuffer s1 of
                   None \<Rightarrow> Inl (TypeError, s1)
                 | Some buf1 \<Rightarrow>
                     let maxBuffered = idmap_get buf1 (maxElementId e buf1);
                         toBuffer =
                           (safeAppendToBuffer s1
                              \<or> (maxBuffered \<noteq> None
                                   \<and> comparator e (Some d) maxBuffered \<le> 0))
                     in if toBuffer then addBuffered e i d s1
                        else Inr (s1\<lparr>safeAppendToBuffer := False\<rparr>))
   \<or> (\<exists>err. handleDoc_published e i d pub s = Inl err)"
  unfolding handleDoc_published_def by (simp split: option.splits add: Let_def)

lemma handleDoc_published_within:
  assumes "handleDoc_published e i d pub s = Inr s'" "publishedWithinLimit s"
    "published s = Some pub" "idmap_has pub i"
  shows "publishedWithinLimit s' \<and> limit s' = limit s"
proof -
  from handleDoc_published_cases[of e i d pub s] assms(1) consider
      (chg) "changePublished e i (idmap_get pub i) d s = Inr s'"
    | (mvbuf) s1 where "removePublished e i s = Inr s1" "addBuffered e i d s1 = Inr s'"
    | (mvdrop) s1 where "removePublished e i s = Inr s1" "s' = s1\<lparr>safeAppendToBuffer := False\<rparr>"
    by (auto simp: bindE_Inr_iff bindE_Inr_iff2 Let_def split: option.splits if_splits)
  then show ?thesis
  proof cases
    case chg then show ?thesis using changePublished_within[OF chg assms(2,3,4)] by blast
  next
    case mvbuf
    then show ?thesis
      using removePublished_within[OF mvbuf(1) assms(2)] addBuffered_within[OF mvbuf(2)] by simp
  next
    case mvdrop
    then show ?thesis
      using removePublished_within[OF mvdrop(1) assms(2)] by (auto simp: publishedWithinLimit_iff)
  qed
qed

lemma handleDoc_buffered_cases:
  "handleDoc_buffered e i d pub s = Inr s' \<Longrightarrow>
   (\<exists>buf1. addPublished e i d (s\<lparr>unpublishedBuffer := Some buf1\<rparr>) = Inr s')
   \<or> (\<exists>b. s' = s\<lparr>unpublishedBuffer := Some b\<rparr>)
   \<or> (\<exists>b. s' = s\<lparr>unpublishedBuffer := Some b, safeAppendToBuffer := False\<rparr>)"
proof (cases "unpublishedBuffer s")
  case None
  then show "handleDoc_buffered e i d pub s = Inr s' \<Longrightarrow> ?thesis"
    by (simp add: handleDoc_buffered_def)
next
  case (Some buf)
  assume r: "handleDoc_buffered e i d pub s = Inr s'"
  show ?thesis
  proof (cases "comparator e (Some d) (idmap_get pub (maxElementId e pub)) < 0")
    case True
    then have "addPublished e i d (s\<lparr>unpublishedBuffer := Some (idmap_remove i buf)\<rparr>) = Inr s'"
      using r Some by (simp add: handleDoc_buffered_def Let_def)
    then show ?thesis by blast
  next
    case False
    then have "s' = s\<lparr>unpublishedBuffer := Some (idmap_set i d (idmap_remove i buf))\<rparr>
        \<or> s' = s\<lparr>unpublishedBuffer := Some (idmap_remove i buf), safeAppendToBuffer := False\<rparr>"
      using r Some by (simp add: handleDoc_buffered_def Let_def split: if_splits)
    then show ?thesis by blast
  qed
qed

lemma handleDoc_buffered_within:
  assumes "handleDoc_buffered e i d pub s = Inr s'" "publishedWithinLimit s"
  shows "publishedWithinLimit s' \<and> limit s' = limit s"
proof -
  from handleDoc_buffered_cases[OF assms(1)] consider
      (pub) buf1 where "addPublished e i d (s\<lparr>unpublishedBuffer := Some buf1\<rparr>) = Inr s'"
    | (stay) b where "s' = s\<lparr>unpublishedBuffer := Some b\<rparr>"
    | (drop) b where "s' = s\<lparr>unpublishedBuffer := Some b, safeAppendToBuffer := False\<rparr>"
    by auto
  then show ?thesis
  proof cases
    case pub
    have "publishedWithinLimit (s\<lparr>unpublishedBuffer := Some buf1\<rparr>)"
      using assms(2) by (simp add: publishedWithinLimit_iff)
    then show ?thesis using addPublished_within[OF pub] by simp
  next
    case stay then show ?thesis using assms(2) by (simp add: publishedWithinLimit_iff)
  next
    case drop then show ?thesis using assms(2) by (simp add: publishedWithinLimit_iff)
  qed
qed

lemma handleDoc_cases:
  assumes "published s = Some pub"
  shows "handleDoc e i newDoc s = Inr s
   \<or> handleDoc e i newDoc s = removeMatching e i s
   \<or> (\<exists>d. newDoc = Some d \<and> handleDoc e i newDoc s = addMatching e d s)
   \<or> (\<exists>d. newDoc = Some d \<and> idmap_has pub i
            \<and> handleDoc e i newDoc s = handleDoc_published e i d pub s)
   \<or> (\<exists>d. newDoc = Some d \<and> handleDoc e i newDoc s = handleDoc_buffered e i d pub s)
   \<or> (\<exists>err. handleDoc e i newDoc s = Inl err)"
  using assms by (simp add: handleDoc_def Let_def split: option.splits)

lemma handleDoc_within:
  assumes "handleDoc e i newDoc s = Inr s'" "publishedWithinLimit s"
  shows "publishedWithinLimit s' \<and> limit s' = limit s"
proof -
  obtain pub where pub: "published s = Some pub"
    using assms(1) by (cases "published s") (simp_all add: handleDoc_def)
  from handleDoc_cases[OF pub, of e i newDoc] assms(1) consider
      (same) "s' = s"
    | (rm) "removeMatching e i s = Inr s'"
    | (add) d where "addMatching e d s = Inr s'"
    | (pb) d where "idmap_has pub i" "handleDoc_published e i d pub s = Inr s'"
    | (bf) d where "handleDoc_buffered e i d pub s = Inr s'"
    by auto
  then show ?thesis
  proof cases
    case same then show ?thesis using assms(2) by simp
  next
    case rm then show ?thesis using removeMatching_within[OF rm assms(2)] by simp
  next
    case add then show ?thesis using addMatching_within[OF add assms(2)] by simp
  next
    case pb then show ?thesis using handleDoc_published_within[OF pb(2) assms(2) pub pb(1)] by blast
  next
    case bf then show ?thesis using handleDoc_buffered_within[OF bf assms(2)] by blast
  qed
qed




lemma foldE_invariant:
  assumes step: "\<And>x s s'. f x s = Inr s' \<Longrightarrow> P s \<Longrightarrow> P s'"
  shows "foldE f xs s = Inr s' \<Longrightarrow> P s \<Longrightarrow> P s'"
proof (induction xs arbitrary: s)
  case Nil
  then show ?case by simp
next
  case (Cons x xs)
  from Cons.prems(1) obtain s1 where s1: "f x s = Inr s1" "foldE f xs s1 = Inr s'"
    by (auto simp: bindE_Inr_iff)
  from step[OF s1(1) Cons.prems(2)] have "P s1" .
  from Cons.IH[OF s1(2) this] show ?case .
qed

lemma publishNewResults_within:
  assumes "publishNewResults e newResults newBuffer s = Inr s'" "publishedWithinLimit s"
  shows "publishedWithinLimit s' \<and> limit s' = limit s"
proof -
  let ?W = "\<lambda>t. publishedWithinLimit t \<and> limit t = limit s"
  from assms(1) obtain s1 where
    a: "(if limit s \<noteq> 0 then
              (case unpublishedBuffer s of
                 None \<Rightarrow> Inl (TypeError, s)
               | Some buf \<Rightarrow> Inr (s\<lparr>unpublishedBuffer := Some []\<rparr>))
            else Inr s) = Inr s1"
    and b: "(case published s1 of
                None \<Rightarrow> Inl (TypeError, s1)
              | Some pub \<Rightarrow>
                  let idsToRemove = map fst (filter (\<lambda>(i, d). \<not> idmap_has newResults i) pub) in
                  bindE (foldE (removePublished e) idsToRemove s1)
                    (\<lambda>s2. bindE (foldE (\<lambda>(i, d). handleDoc e i (Some d)) newResults s2)
                       (\<lambda>s3. case published s3 of
                                None \<Rightarrow> Inl (TypeError, s3)
                              | Some pub3 \<Rightarrow>
                                  if idmap_size pub3 \<noteq> idmap_size newResults then
                                    Inl (Error ''failed to copy newResults into _published!'', s3)
                                  else if list_ex (\<lambda>(i, d). \<not> idmap_has newResults i) pub3 then
                                    Inl (Error ''_published has a doc that newResults doesn't'', s3)
                                  else
                                    bindE (foldE (\<lambda>(i, d). addBuffered e i d) newBuffer s3)
                                      (\<lambda>s4. Inr (s4\<lparr>safeAppendToBuffer :=
                                                        (idmap_size newBuffer < limit s4)\<rparr>))))) = Inr s'"
    unfolding publishNewResults_def bindE_Inr_iff by blast
  from a have s1: "s1 = s \<or> s1 = s\<lparr>unpublishedBuffer := Some []\<rparr>"
    by (cases "limit s = 0"; cases "unpublishedBuffer s") auto
  from b obtain pub :: heap and s2 s3 where
    s2: "foldE (removePublished e) (map fst (filter (\<lambda>(i, d). \<not> idmap_has newResults i) pub)) s1 = Inr s2"
    and s3: "foldE (\<lambda>(i, d). handleDoc e i (Some d)) newResults s2 = Inr s3"
    and c: "(case published s3 of
                                None \<Rightarrow> Inl (TypeError, s3)
                              | Some pub3 \<Rightarrow>
                                  if idmap_size pub3 \<noteq> idmap_size newResults then
                                    Inl (Error ''failed to copy newResults into _published!'', s3)
                                  else if list_ex (\<lambda>(i, d). \<not> idmap_has newResults i) pub3 then
                                    Inl (Error ''_published has a doc that newResults doesn't'', s3)
                                  else
                                    bindE (foldE (\<lambda>(i, d). addBuffered e i d) newBuffer s3)
                                      (\<lambda>s4. Inr (s4\<lparr>safeAppendToBuffer :=
                                                        (idmap_size newBuffer < limit s4)\<rparr>))) = Inr s'"
    by (cases "published s1") (auto simp: Let_def bindE_Inr_iff)
  from c obtain s4 where
    s4: "foldE (\<lambda>(i, d). addBuffered e i d) newBuffer s3 = Inr s4"
    and s': "s' = s4\<lparr>safeAppendToBuffer := (idmap_size newBuffer < limit s4)\<rparr>"
    by (cases "published s3") (auto simp: bindE_Inr_iff split: if_splits)
  have w1: "?W s1" using s1 assms(2) by (auto simp: publishedWithinLimit_iff)
  have w2: "?W s2"
    by (rule foldE_invariant[where P = ?W, OF _ s2 w1]) (use removePublished_within in metis)
  have w3: "?W s3"
    by (rule foldE_invariant[where P = ?W, OF _ s3 w2])
       (use handleDoc_within in \<open>auto split: prod.splits\<close>)
  have w4: "?W s4"
    by (rule foldE_invariant[where P = ?W, OF _ s4 w3])
       (use addBuffered_within in \<open>auto split: prod.splits\<close>)
  show ?thesis using w4 s' by (auto simp: publishedWithinLimit_iff)
qed


section \<open>Adding a matching document\<close>

lemma has_set_same: "idmap_has (idmap_set i v m) i"
  by (simp add: idmap_has_def idmap_set_def update_conv')

lemma has_remove_other: "j \<noteq> i \<Longrightarrow> idmap_has (idmap_remove j m) i = idmap_has m i"
  by (simp add: idmap_has_def idmap_remove_def delete_conv')

lemma addBuffered_keeps:
  "addBuffered e i d s = Inr s' \<Longrightarrow> published s' = published s \<and> emitted s' = emitted s"
  by (cases "unpublishedBuffer s") (auto simp: addBuffered_def Let_def split: if_splits)

lemma addPublished_publishes:
  assumes "addPublished e i d s = Inr s'"
  shows "idmap_has (publishedOf s') i
       \<and> take (Suc (length (emitted s))) (emitted s')
           = emitted s @ [Added i (projectionFn e (delete_key ''_id'' d))]"
proof -
  obtain pub where pub: "published s = Some pub"
    using assms by (cases "published s") (simp_all add: addPublished_def)
  let ?pub1 = "idmap_set i (sharedProjectionFn e d) pub"
  let ?ev = "emitted s @ [Added i (projectionFn e (delete_key ''_id'' d))]"
  show ?thesis
  proof (cases "limit s \<noteq> 0 \<and> idmap_size ?pub1 > limit s")
    case False
    then have "s' = s\<lparr>published := Some ?pub1, emitted := ?ev\<rparr>"
      using assms pub by (auto simp: addPublished_def Let_def)
    then show ?thesis by (simp add: publishedOf_def has_set_same)
  next
    case True
    let ?m = "maxElementId e ?pub1"
    from assms pub True obtain od where
      ne: "?m \<noteq> i"
      and r: "addBuffered e ?m od
                (s\<lparr>published := Some (idmap_remove ?m ?pub1), emitted := ?ev @ [Removed ?m]\<rparr>) = Inr s'"
      by (auto simp: addPublished_def Let_def split: if_splits option.splits)
    from addBuffered_keeps[OF r] ne show ?thesis
      by (simp add: publishedOf_def has_remove_other has_set_same)
  qed
qed

lemma addMatching_placement:
  assumes "notCached (doc_id d) s"
  shows "addMatching e d s =
           (case placement_spec e d (limit s) (safeAppendToBuffer s) (publishedOf s) (bufferOf s) of
              ToPublish \<Rightarrow> addPublished e (doc_id d) d s
            | ToBuffer \<Rightarrow> addBuffered e (doc_id d) d s
            | ToDrop \<Rightarrow> Inr (s\<lparr>safeAppendToBuffer := False\<rparr>))"
proof -
  from assms obtain pub where pub: "published s = Some pub" "\<not> idmap_has pub (doc_id d)"
    by (cases "published s") (simp_all add: notCached_def)
  show ?thesis
  proof (cases "limit s = 0")
    case True
    then show ?thesis using pub
      by (simp add: addMatching_def placement_spec_def)
  next
    case False
    with assms obtain buf where buf: "unpublishedBuffer s = Some buf" "\<not> idmap_has buf (doc_id d)"
      by (cases "unpublishedBuffer s") (simp_all add: notCached_def)
    have m: "(if idmap_size h > 0 then idmap_get h (maxElementId e h) else None) = maxOf e h" for h
      by (simp add: maxOf_def idmap_size_def)
    show ?thesis using pub buf False
      by (auto simp: addMatching_def placement_spec_def Let_def m publishedOf_def bufferOf_def)
  qed
qed

text \<open>
  Claim C3. For a document whose id is in neither cache, \<^verbatim>\<open>_addMatching\<close> follows
  the classification of the specification: where it says publish, the call is
  \<^verbatim>\<open>_addPublished\<close>, and when that returns the id is published and \<^verbatim>\<open>added\<close> was
  emitted for it; where it says buffer, the call is \<^verbatim>\<open>_addBuffered\<close>, which leaves
  the published set and the multiplexer alone; where it says drop, nothing is cached and
  \<open>safeAppendToBuffer\<close> becomes false.
\<close>

theorem addMatching_classifies:
  assumes "notCached (doc_id d) s"
  shows "(placement_spec e d (limit s) (safeAppendToBuffer s) (publishedOf s) (bufferOf s) = ToPublish
            \<longrightarrow> addMatching e d s = addPublished e (doc_id d) d s
              \<and> (\<forall>s'. addMatching e d s = Inr s'
                     \<longrightarrow> idmap_has (publishedOf s') (doc_id d)
                       \<and> take (Suc (length (emitted s))) (emitted s')
                           = emitted s @ [Added (doc_id d) (projectionFn e (delete_key ''_id'' d))]))
       \<and> (placement_spec e d (limit s) (safeAppendToBuffer s) (publishedOf s) (bufferOf s) = ToBuffer
            \<longrightarrow> addMatching e d s = addBuffered e (doc_id d) d s
              \<and> (\<forall>s'. addMatching e d s = Inr s'
                     \<longrightarrow> published s' = published s \<and> emitted s' = emitted s))
       \<and> (placement_spec e d (limit s) (safeAppendToBuffer s) (publishedOf s) (bufferOf s) = ToDrop
            \<longrightarrow> addMatching e d s = Inr (s\<lparr>safeAppendToBuffer := False\<rparr>))"
proof (intro conjI impI allI)
  assume "placement_spec e d (limit s) (safeAppendToBuffer s) (publishedOf s) (bufferOf s) = ToPublish"
  then show eq: "addMatching e d s = addPublished e (doc_id d) d s"
    by (simp add: addMatching_placement[OF assms])
  fix s' assume "addMatching e d s = Inr s'"
  with eq have r: "addPublished e (doc_id d) d s = Inr s'" by simp
  from addPublished_publishes[OF r]
  show "idmap_has (publishedOf s') (doc_id d)"
    and "take (Suc (length (emitted s))) (emitted s')
           = emitted s @ [Added (doc_id d) (projectionFn e (delete_key ''_id'' d))]"
    by simp_all
next
  assume "placement_spec e d (limit s) (safeAppendToBuffer s) (publishedOf s) (bufferOf s) = ToBuffer"
  then show eq: "addMatching e d s = addBuffered e (doc_id d) d s"
    by (simp add: addMatching_placement[OF assms])
  fix s' assume "addMatching e d s = Inr s'"
  with eq have r: "addBuffered e (doc_id d) d s = Inr s'" by simp
  from addBuffered_keeps[OF r] show "published s' = published s" and "emitted s' = emitted s"
    by simp_all
next
  assume "placement_spec e d (limit s) (safeAppendToBuffer s) (publishedOf s) (bufferOf s) = ToDrop"
  then show "addMatching e d s = Inr (s\<lparr>safeAppendToBuffer := False\<rparr>)"
    by (simp add: addMatching_placement[OF assms])
qed

theorem addMatching_classifies_witness:
  "notCached (doc_id (docN 2 5)) oneOfTen
   \<and> placement_spec sortedByN (docN 2 5) 1 False [(VNum 1, docN 1 10)] [] = ToPublish
   \<and> addMatching sortedByN (docN 2 5) oneOfTen
       = Inr (oneOfTen\<lparr>published := Some [(VNum 2, docN 2 5)],
                       unpublishedBuffer := Some [(VNum 1, docN 1 10)],
                       emitted := [Added (VNum 2) [(''n'', VNum 5)], Removed (VNum 1)]\<rparr>)
   \<and> notCached (doc_id (docN 2 20)) tenAndThirty
   \<and> placement_spec sortedByN (docN 2 20) 1 False [(VNum 1, docN 1 10)] [(VNum 3, docN 3 30)]
       = ToBuffer
   \<and> addMatching sortedByN (docN 2 20) tenAndThirty
       = Inr (tenAndThirty\<lparr>unpublishedBuffer := Some [(VNum 2, docN 2 20)]\<rparr>)
   \<and> notCached (doc_id (docN 2 20)) oneOfTen
   \<and> placement_spec sortedByN (docN 2 20) 1 False [(VNum 1, docN 1 10)] [] = ToDrop
   \<and> addMatching sortedByN (docN 2 20) oneOfTen = Inr (oneOfTen\<lparr>safeAppendToBuffer := False\<rparr>)"
proof -
  have n1: "notCached (doc_id (docN 2 5)) oneOfTen"
    and n2: "notCached (doc_id (docN 2 20)) tenAndThirty"
    and n3: "notCached (doc_id (docN 2 20)) oneOfTen"
    by (simp_all add: notCached_def oneOfTen_def tenAndThirty_def idmap_defs example_defs)
  have p1: "placement_spec sortedByN (docN 2 5) (limit oneOfTen) (safeAppendToBuffer oneOfTen)
              (publishedOf oneOfTen) (bufferOf oneOfTen) = ToPublish"
    and p2: "placement_spec sortedByN (docN 2 20) (limit tenAndThirty)
               (safeAppendToBuffer tenAndThirty) (publishedOf tenAndThirty) (bufferOf tenAndThirty)
             = ToBuffer"
    and p3: "placement_spec sortedByN (docN 2 20) (limit oneOfTen) (safeAppendToBuffer oneOfTen)
               (publishedOf oneOfTen) (bufferOf oneOfTen) = ToDrop"
    by (simp_all add: placement_spec_def maxOf_def publishedOf_def bufferOf_def oneOfTen_def
        tenAndThirty_def idmap_defs example_defs)
  have a1: "addMatching sortedByN (docN 2 5) oneOfTen
              = addPublished sortedByN (doc_id (docN 2 5)) (docN 2 5) oneOfTen"
    using addMatching_classifies[OF n1, of sortedByN] p1 by blast
  have a2: "addMatching sortedByN (docN 2 20) tenAndThirty
              = addBuffered sortedByN (doc_id (docN 2 20)) (docN 2 20) tenAndThirty"
    using addMatching_classifies[OF n2, of sortedByN] p2 by blast
  have a3: "addMatching sortedByN (docN 2 20) oneOfTen = Inr (oneOfTen\<lparr>safeAppendToBuffer := False\<rparr>)"
    using addMatching_classifies[OF n3, of sortedByN] p3 by blast
  have b1: "addPublished sortedByN (doc_id (docN 2 5)) (docN 2 5) oneOfTen
       = Inr (oneOfTen\<lparr>published := Some [(VNum 2, docN 2 5)],
                       unpublishedBuffer := Some [(VNum 1, docN 1 10)],
                       emitted := [Added (VNum 2) [(''n'', VNum 5)], Removed (VNum 1)]\<rparr>)"
    by (simp add: oneOfTen_def addPublished_def addBuffered_def Let_def idmap_defs example_defs)
  have b2: "addBuffered sortedByN (doc_id (docN 2 20)) (docN 2 20) tenAndThirty
       = Inr (tenAndThirty\<lparr>unpublishedBuffer := Some [(VNum 2, docN 2 20)]\<rparr>)"
    by (simp add: tenAndThirty_def addBuffered_def Let_def idmap_defs example_defs)
  have p1': "placement_spec sortedByN (docN 2 5) 1 False [(VNum 1, docN 1 10)] [] = ToPublish"
    and p2': "placement_spec sortedByN (docN 2 20) 1 False [(VNum 1, docN 1 10)] [(VNum 3, docN 3 30)]
       = ToBuffer"
    and p3': "placement_spec sortedByN (docN 2 20) 1 False [(VNum 1, docN 1 10)] [] = ToDrop"
    using p1 p2 p3
    by (simp_all add: publishedOf_def bufferOf_def oneOfTen_def tenAndThirty_def initialState_def)
  show ?thesis using n1 n2 n3 p1' p2' p3' a1 a2 a3 b1 b2 by simp
qed

section \<open>The footprint of the operations on the caches\<close>

lemma deferredTokens_append [simp]:
  "deferredTokens (ts @ us) = deferredTokens ts @ deferredTokens us"
  by (induction ts rule: deferredTokens.induct) simp_all

lemma cacheStep_refl: "cacheStep e s s"
  by (simp add: cacheStep_def)

lemma cacheStep_trans:
  assumes "cacheStep e s s1" "cacheStep e s1 s2"
  shows "cacheStep e s s2"
proof -
  from assms(1) obtain a where a: "emitted s1 = emitted s @ a" "list_all (cacheEvent e) a"
    by (auto simp: cacheStep_def)
  from assms(2) obtain b where b: "emitted s2 = emitted s1 @ b" "list_all (cacheEvent e) b"
    by (auto simp: cacheStep_def)
  have "emitted s2 = emitted s @ (a @ b) \<and> list_all (cacheEvent e) (a @ b)"
    using a b by simp
  then have ev: "\<exists>evs. emitted s2 = emitted s @ evs \<and> list_all (cacheEvent e) evs" by blast
  from assms have
    "deferredTokens (deferred s2) = deferredTokens (deferred s)"
    "limit s2 = limit s" "stopped s2 = stopped s" "handlesStopped s2 = handlesStopped s"
    "fetchGeneration s \<le> fetchGeneration s2"
    "writesToCommitWhenWeReachSteady s2 = writesToCommitWhenWeReachSteady s"
    "committed s2 = committed s" "fetches s2 = fetches s"
    "published s \<noteq> None \<longrightarrow> published s2 \<noteq> None"
    "unpublishedBuffer s \<noteq> None \<longrightarrow> unpublishedBuffer s2 \<noteq> None"
    "needToFetch s \<noteq> None \<longrightarrow> needToFetch s2 \<noteq> None"
    unfolding cacheStep_def by auto
  with ev show ?thesis unfolding cacheStep_def by blast
qed

lemma cacheStep_quiet:
  assumes "deferredTokens (deferred s') = deferredTokens (deferred s)"
    "limit s' = limit s" "stopped s' = stopped s" "handlesStopped s' = handlesStopped s"
    "fetchGeneration s \<le> fetchGeneration s'"
    "writesToCommitWhenWeReachSteady s' = writesToCommitWhenWeReachSteady s"
    "committed s' = committed s" "fetches s' = fetches s"
    "published s \<noteq> None \<longrightarrow> published s' \<noteq> None"
    "unpublishedBuffer s \<noteq> None \<longrightarrow> unpublishedBuffer s' \<noteq> None"
    "needToFetch s \<noteq> None \<longrightarrow> needToFetch s' \<noteq> None"
    "emitted s' = emitted s"
  shows "cacheStep e s s'"
  using assms unfolding cacheStep_def by simp

lemma pollQuery_cacheStep: "cacheStep e s (pollQuery s)"
  by (rule cacheStep_quiet) (simp_all add: pollQuery_def registerPhaseChange_def)

lemma needToPollQuery_cacheStep: "cacheStep e s (needToPollQuery s)"
  by (rule cacheStep_quiet) (simp_all add: needToPollQuery_def pollQuery_def registerPhaseChange_def)

lemma addBuffered_cacheStep: "addBuffered e i d s = Inr s' \<Longrightarrow> cacheStep e s s'"
  by (cases "unpublishedBuffer s")
     (auto simp: addBuffered_def Let_def cacheStep_def split: if_splits)

lemma removeBuffered_cacheStep:
  assumes "removeBuffered i s = Inr s'"
  shows "cacheStep e s s'"
proof -
  from assms obtain buf where buf: "unpublishedBuffer s = Some buf"
    by (cases "unpublishedBuffer s") (simp_all add: removeBuffered_def)
  let ?s1 = "s\<lparr>unpublishedBuffer := Some (idmap_remove i buf)\<rparr>"
  have 1: "cacheStep e s ?s1" by (rule cacheStep_quiet) simp_all
  from assms buf have "s' = ?s1 \<or> s' = needToPollQuery ?s1"
    by (auto simp: removeBuffered_def Let_def split: if_splits)
  then show ?thesis
    using 1 cacheStep_trans[OF 1 needToPollQuery_cacheStep] by auto
qed

lemma cacheStep_emit:
  assumes "list_all (cacheEvent e) evs"
  shows "cacheStep e s (s\<lparr>published := Some p, emitted := emitted s @ evs\<rparr>)"
  using assms unfolding cacheStep_def by simp

lemma cacheEvent_simps:
  "cacheEvent e (Added i (projectionFn e (delete_key ''_id'' d)))"
  "cacheEvent e (Removed i)" "cacheEvent e (Changed i f)"
  "\<not> cacheEvent e Ready" "\<not> cacheEvent e (OnFlush ws)"
  by (auto simp: cacheEvent_def)

lemma addPublished_cacheStep:
  assumes "addPublished e i d s = Inr s'"
  shows "cacheStep e s s'"
proof -
  obtain pub where pub: "published s = Some pub"
    using assms by (cases "published s") (simp_all add: addPublished_def)
  let ?pub1 = "idmap_set i (sharedProjectionFn e d) pub"
  let ?a = "Added i (projectionFn e (delete_key ''_id'' d))"
  show ?thesis
  proof (cases "limit s \<noteq> 0 \<and> idmap_size ?pub1 > limit s")
    case False
    then have "s' = s\<lparr>published := Some ?pub1, emitted := emitted s @ [?a]\<rparr>"
      using assms pub by (auto simp: addPublished_def Let_def)
    then show ?thesis using cacheStep_emit[of e "[?a]" s ?pub1] by (simp add: cacheEvent_simps)
  next
    case True
    let ?m = "maxElementId e ?pub1"
    let ?s2 = "s\<lparr>published := Some (idmap_remove ?m ?pub1), emitted := emitted s @ [?a, Removed ?m]\<rparr>"
    from assms pub True obtain od where r: "addBuffered e ?m od ?s2 = Inr s'"
      by (auto simp: addPublished_def Let_def split: if_splits option.splits)
    have "cacheStep e s ?s2"
      using cacheStep_emit[of e "[?a, Removed ?m]" s] by (simp add: cacheEvent_simps)
    from cacheStep_trans[OF this addBuffered_cacheStep[OF r]] show ?thesis .
  qed
qed

lemma removePublished_cacheStep:
  assumes "removePublished e i s = Inr s'"
  shows "cacheStep e s s'"
proof -
  obtain pub where pub: "published s = Some pub"
    using assms by (cases "published s") (simp_all add: removePublished_def)
  let ?s1 = "s\<lparr>published := Some (idmap_remove i pub), emitted := emitted s @ [Removed i]\<rparr>"
  have 1: "cacheStep e s ?s1"
    using cacheStep_emit[of e "[Removed i]" s] by (simp add: cacheEvent_simps)
  from removePublished_cases[OF pub, of e i] assms consider "s' = ?s1"
    | s2 nd j where "removeBuffered j ?s1 = Inr s2" "addPublished e j nd s2 = Inr s'"
    by (auto simp: bindE_Inr_iff bindE_Inr_iff2 split: option.splits)
  then show ?thesis
  proof cases
    case 1
    then show ?thesis using \<open>cacheStep e s ?s1\<close> by simp
  next
    case 2
    from cacheStep_trans[OF 1 cacheStep_trans[OF removeBuffered_cacheStep[OF 2(1)]
          addPublished_cacheStep[OF 2(2)]]]
    show ?thesis .
  qed
qed

lemma changePublished_cacheStep:
  assumes "changePublished e i oldDoc d s = Inr s'"
  shows "cacheStep e s s'"
proof -
  obtain pub where pub: "published s = Some pub"
    using assms by (cases "published s") (simp_all add: changePublished_def)
  let ?c = "projectionFn e (makeChangedFields e d oldDoc)"
  from assms pub have "s' = s\<lparr>published := Some (idmap_set i (sharedProjectionFn e d) pub),
                  emitted := emitted s @ (if ?c = [] then [] else [Changed i ?c])\<rparr>"
    by (simp add: changePublished_def Let_def)
  then show ?thesis
    using cacheStep_emit[of e "if ?c = [] then [] else [Changed i ?c]" s]
    by (simp add: cacheEvent_simps)
qed

lemma addMatching_cacheStep:
  assumes "addMatching e d s = Inr s'"
  shows "cacheStep e s s'"
proof -
  from addMatching_cases[of e d s] assms consider "addPublished e (doc_id d) d s = Inr s'"
    | "addBuffered e (doc_id d) d s = Inr s'"
    | "s' = s\<lparr>safeAppendToBuffer := False\<rparr>"
    by auto
  then show ?thesis
  proof cases
    case 1 then show ?thesis by (rule addPublished_cacheStep)
  next
    case 2 then show ?thesis by (rule addBuffered_cacheStep)
  next
    case 3 then show ?thesis by (simp add: cacheStep_def)
  qed
qed

lemma removeMatching_cacheStep:
  assumes "removeMatching e i s = Inr s'"
  shows "cacheStep e s s'"
proof -
  from removeMatching_cases[of e i s] assms consider "removePublished e i s = Inr s'"
    | "removeBuffered i s = Inr s'"
    | "s' = s"
    by auto
  then show ?thesis
  proof cases
    case 1 then show ?thesis by (rule removePublished_cacheStep)
  next
    case 2 then show ?thesis by (rule removeBuffered_cacheStep)
  next
    case 3 then show ?thesis by (simp add: cacheStep_refl)
  qed
qed

lemma handleDoc_published_cacheStep:
  assumes "handleDoc_published e i d pub s = Inr s'"
  shows "cacheStep e s s'"
proof -
  from handleDoc_published_cases[of e i d pub s] assms consider
      (chg) "changePublished e i (idmap_get pub i) d s = Inr s'"
    | (mvbuf) s1 where "removePublished e i s = Inr s1" "addBuffered e i d s1 = Inr s'"
    | (mvdrop) s1 where "removePublished e i s = Inr s1" "s' = s1\<lparr>safeAppendToBuffer := False\<rparr>"
    by (auto simp: bindE_Inr_iff bindE_Inr_iff2 Let_def split: option.splits if_splits)
  then show ?thesis
  proof cases
    case chg then show ?thesis by (rule changePublished_cacheStep)
  next
    case mvbuf
    from cacheStep_trans[OF removePublished_cacheStep[OF mvbuf(1)] addBuffered_cacheStep[OF mvbuf(2)]]
    show ?thesis .
  next
    case mvdrop
    have "cacheStep e s1 s'" using mvdrop(2) by (simp add: cacheStep_def)
    from cacheStep_trans[OF removePublished_cacheStep[OF mvdrop(1)] this] show ?thesis .
  qed
qed

lemma handleDoc_buffered_cacheStep:
  assumes "handleDoc_buffered e i d pub s = Inr s'"
  shows "cacheStep e s s'"
proof -
  from handleDoc_buffered_cases[OF assms] consider
      (pub) buf1 where "addPublished e i d (s\<lparr>unpublishedBuffer := Some buf1\<rparr>) = Inr s'"
    | (stay) b where "s' = s\<lparr>unpublishedBuffer := Some b\<rparr>"
    | (drop) b where "s' = s\<lparr>unpublishedBuffer := Some b, safeAppendToBuffer := False\<rparr>"
    by auto
  then show ?thesis
  proof cases
    case pub
    have "cacheStep e s (s\<lparr>unpublishedBuffer := Some buf1\<rparr>)" by (simp add: cacheStep_def)
    from cacheStep_trans[OF this addPublished_cacheStep[OF pub]] show ?thesis .
  next
    case stay then show ?thesis by (simp add: cacheStep_def)
  next
    case drop then show ?thesis by (simp add: cacheStep_def)
  qed
qed

lemma handleDoc_cacheStep:
  assumes "handleDoc e i newDoc s = Inr s'"
  shows "cacheStep e s s'"
proof -
  obtain pub where pub: "published s = Some pub"
    using assms by (cases "published s") (simp_all add: handleDoc_def)
  from handleDoc_cases[OF pub, of e i newDoc] assms consider
      (same) "s' = s"
    | (rm) "removeMatching e i s = Inr s'"
    | (add) d where "addMatching e d s = Inr s'"
    | (pb) d where "handleDoc_published e i d pub s = Inr s'"
    | (bf) d where "handleDoc_buffered e i d pub s = Inr s'"
    by auto
  then show ?thesis
  proof cases
    case same then show ?thesis by (simp add: cacheStep_refl)
  next
    case rm then show ?thesis by (rule removeMatching_cacheStep)
  next
    case add then show ?thesis by (rule addMatching_cacheStep)
  next
    case pb then show ?thesis by (rule handleDoc_published_cacheStep)
  next
    case bf then show ?thesis by (rule handleDoc_buffered_cacheStep)
  qed
qed

lemma foldE_cacheStep:
  assumes "\<And>x s s'. f x s = Inr s' \<Longrightarrow> cacheStep e s s'"
  shows "foldE f xs s = Inr s' \<Longrightarrow> cacheStep e s s'"
proof (induction xs arbitrary: s)
  case Nil
  then show ?case by (simp add: cacheStep_refl)
next
  case (Cons x xs)
  from Cons.prems obtain s1 where s1: "f x s = Inr s1" "foldE f xs s1 = Inr s'"
    by (auto simp: bindE_Inr_iff)
  from cacheStep_trans[OF assms[OF s1(1)] Cons.IH[OF s1(2)]] show ?case .
qed

lemma publishNewResults_stages:
  assumes "publishNewResults e newResults newBuffer s = Inr s'"
  obtains s1 s2 s3 s4 and pub :: heap where
    "s1 = s \<or> s1 = s\<lparr>unpublishedBuffer := Some []\<rparr>"
    "foldE (removePublished e) (map fst (filter (\<lambda>(i, d). \<not> idmap_has newResults i) pub)) s1 = Inr s2"
    "foldE (\<lambda>(i, d). handleDoc e i (Some d)) newResults s2 = Inr s3"
    "foldE (\<lambda>(i, d). addBuffered e i d) newBuffer s3 = Inr s4"
    "s' = s4\<lparr>safeAppendToBuffer := (idmap_size newBuffer < limit s4)\<rparr>"
    "published s3 \<noteq> None"
proof -
  from assms obtain s1 where
    a: "(if limit s \<noteq> 0 then
              (case unpublishedBuffer s of
                 None \<Rightarrow> Inl (TypeError, s)
               | Some buf \<Rightarrow> Inr (s\<lparr>unpublishedBuffer := Some []\<rparr>))
            else Inr s) = Inr s1"
    and b: "(case published s1 of
                None \<Rightarrow> Inl (TypeError, s1)
              | Some pub \<Rightarrow>
                  let idsToRemove = map fst (filter (\<lambda>(i, d). \<not> idmap_has newResults i) pub) in
                  bindE (foldE (removePublished e) idsToRemove s1)
                    (\<lambda>s2. bindE (foldE (\<lambda>(i, d). handleDoc e i (Some d)) newResults s2)
                       (\<lambda>s3. case published s3 of
                                None \<Rightarrow> Inl (TypeError, s3)
                              | Some pub3 \<Rightarrow>
                                  if idmap_size pub3 \<noteq> idmap_size newResults then
                                    Inl (Error ''failed to copy newResults into _published!'', s3)
                                  else if list_ex (\<lambda>(i, d). \<not> idmap_has newResults i) pub3 then
                                    Inl (Error ''_published has a doc that newResults doesn't'', s3)
                                  else
                                    bindE (foldE (\<lambda>(i, d). addBuffered e i d) newBuffer s3)
                                      (\<lambda>s4. Inr (s4\<lparr>safeAppendToBuffer :=
                                                        (idmap_size newBuffer < limit s4)\<rparr>))))) = Inr s'"
    unfolding publishNewResults_def bindE_Inr_iff by blast
  from a have s1: "s1 = s \<or> s1 = s\<lparr>unpublishedBuffer := Some []\<rparr>"
    by (cases "limit s = 0"; cases "unpublishedBuffer s") auto
  from b obtain pub :: heap and s2 s3 where
    s2: "foldE (removePublished e) (map fst (filter (\<lambda>(i, d). \<not> idmap_has newResults i) pub)) s1 = Inr s2"
    and s3: "foldE (\<lambda>(i, d). handleDoc e i (Some d)) newResults s2 = Inr s3"
    and c: "(case published s3 of
                                None \<Rightarrow> Inl (TypeError, s3)
                              | Some pub3 \<Rightarrow>
                                  if idmap_size pub3 \<noteq> idmap_size newResults then
                                    Inl (Error ''failed to copy newResults into _published!'', s3)
                                  else if list_ex (\<lambda>(i, d). \<not> idmap_has newResults i) pub3 then
                                    Inl (Error ''_published has a doc that newResults doesn't'', s3)
                                  else
                                    bindE (foldE (\<lambda>(i, d). addBuffered e i d) newBuffer s3)
                                      (\<lambda>s4. Inr (s4\<lparr>safeAppendToBuffer :=
                                                        (idmap_size newBuffer < limit s4)\<rparr>))) = Inr s'"
    by (cases "published s1") (auto simp: Let_def bindE_Inr_iff)
  from c obtain s4 where
    s4: "foldE (\<lambda>(i, d). addBuffered e i d) newBuffer s3 = Inr s4"
    and s': "s' = s4\<lparr>safeAppendToBuffer := (idmap_size newBuffer < limit s4)\<rparr>"
    and p3: "published s3 \<noteq> None"
    by (cases "published s3") (auto simp: bindE_Inr_iff split: if_splits)
  from that[OF s1 s2 s3 s4 s' p3] show thesis .
qed

lemma publishNewResults_cacheStep:
  assumes "publishNewResults e newResults newBuffer s = Inr s'"
  shows "cacheStep e s s'"
proof -
  from assms obtain s1 s2 s3 s4 and pub :: heap where
    s1: "s1 = s \<or> s1 = s\<lparr>unpublishedBuffer := Some []\<rparr>"
    and s2: "foldE (removePublished e) (map fst (filter (\<lambda>(i, d). \<not> idmap_has newResults i) pub)) s1 = Inr s2"
    and s3: "foldE (\<lambda>(i, d). handleDoc e i (Some d)) newResults s2 = Inr s3"
    and s4: "foldE (\<lambda>(i, d). addBuffered e i d) newBuffer s3 = Inr s4"
    and s': "s' = s4\<lparr>safeAppendToBuffer := (idmap_size newBuffer < limit s4)\<rparr>"
    by (rule publishNewResults_stages)
  have c1: "cacheStep e s s1" using s1 by (auto simp: cacheStep_def)
  have c2: "cacheStep e s1 s2"
    by (rule foldE_cacheStep[OF _ s2]) (rule removePublished_cacheStep)
  have c3: "cacheStep e s2 s3"
    by (rule foldE_cacheStep[OF _ s3]) (auto dest: handleDoc_cacheStep)
  have c4: "cacheStep e s3 s4"
    by (rule foldE_cacheStep[OF _ s4]) (auto dest: addBuffered_cacheStep)
  have c5: "cacheStep e s4 s'" using s' by (simp add: cacheStep_def)
  from cacheStep_trans[OF c1 cacheStep_trans[OF c2 cacheStep_trans[OF c3 cacheStep_trans[OF c4 c5]]]]
  show ?thesis .
qed

section \<open>A cached document that still matches\<close>

lemma maxOf_get: "idmap_get h (maxElementId e h) = maxOf e h"
  by (cases h) (simp_all add: maxOf_def maxElementId_def idmap_get_def)

lemma maxOf_guarded: "(if idmap_size h \<noteq> 0 then idmap_get h (maxElementId e h) else None) = maxOf e h"
  by (simp add: maxOf_def idmap_size_def)

lemma minOf_guarded: "(if idmap_size h \<noteq> 0 then idmap_get h (minElementId e h) else None) = minOf e h"
  by (simp add: minOf_def idmap_size_def)

lemma handleDoc_published_table:
  assumes "published s = Some pub" "limit s \<noteq> 0 \<longrightarrow> unpublishedBuffer s \<noteq> None"
  shows "handleDoc_published e i d pub s = table_published e i d s"
proof (cases "limit s = 0")
  case True
  then show ?thesis using assms(1)
    by (simp add: handleDoc_published_def table_published_def publishedOf_def)
next
  case False
  with assms(2) obtain buf where buf: "unpublishedBuffer s = Some buf" by auto
  have cont: "(case unpublishedBuffer s1 of
                 None \<Rightarrow> Inl (TypeError, s1)
               | Some buf1 \<Rightarrow>
                   let maxBuffered = idmap_get buf1 (maxElementId e buf1);
                       toBuffer = (safeAppendToBuffer s1
                                    \<or> (maxBuffered \<noteq> None \<and> comparator e (Some d) maxBuffered \<le> 0))
                   in if toBuffer then addBuffered e i d s1
                      else Inr (s1\<lparr>safeAppendToBuffer := False\<rparr>))
            = (if safeAppendToBuffer s1 \<or> sortsNotAfter e d (maxOf e (bufferOf s1))
               then addBuffered e i d s1
               else Inr (s1\<lparr>safeAppendToBuffer := False\<rparr>))"
    if "removePublished e i s = Inr s1" for s1
  proof -
    from removePublished_cacheStep[OF that] buf obtain buf1 where "unpublishedBuffer s1 = Some buf1"
      by (auto simp: cacheStep_def)
    then show ?thesis by (simp add: Let_def maxOf_get sortsNotAfter_def bufferOf_def)
  qed
  have b: "bindE (removePublished e i s) f = bindE (removePublished e i s) g"
    if "\<And>s1. removePublished e i s = Inr s1 \<Longrightarrow> f s1 = g s1" for f g :: "driver \<Rightarrow> driver result"
    using that by (cases "removePublished e i s") simp_all
  show ?thesis
  proof (cases "buf = [] \<or> comparator e (Some d) (minOf e buf) \<le> 0")
    case True
    then show ?thesis using False buf assms(1)
      by (auto simp: handleDoc_published_def table_published_def Let_def minOf_def bufferOf_def
          publishedOf_def idmap_size_def)
  next
    case stay0: False
    then have stay: "buf \<noteq> []" "\<not> comparator e (Some d) (idmap_get buf (minElementId e buf)) \<le> 0"
      "\<not> comparator e (Some d) (minOf e buf) \<le> 0"
      by (auto simp: minOf_def)
    have "handleDoc_published e i d pub s =
            bindE (removePublished e i s)
              (\<lambda>s1. case unpublishedBuffer s1 of
                 None \<Rightarrow> Inl (TypeError, s1)
               | Some buf1 \<Rightarrow>
                   let maxBuffered = idmap_get buf1 (maxElementId e buf1);
                       toBuffer = (safeAppendToBuffer s1
                                    \<or> (maxBuffered \<noteq> None \<and> comparator e (Some d) maxBuffered \<le> 0))
                   in if toBuffer then addBuffered e i d s1
                      else Inr (s1\<lparr>safeAppendToBuffer := False\<rparr>))"
      using False buf stay
      by (simp add: handleDoc_published_def Let_def idmap_size_def)
    also have "\<dots> = bindE (removePublished e i s)
             (\<lambda>s1. if safeAppendToBuffer s1 \<or> sortsNotAfter e d (maxOf e (bufferOf s1))
                   then addBuffered e i d s1
                   else Inr (s1\<lparr>safeAppendToBuffer := False\<rparr>))"
      by (rule b) (rule cont)
    also have "\<dots> = table_published e i d s"
      using False buf stay by (simp add: table_published_def bufferOf_def)
    finally show ?thesis .
  qed
qed

lemma handleDoc_buffered_table:
  assumes "published s = Some pub" "unpublishedBuffer s = Some buf"
  shows "handleDoc_buffered e i d pub s = table_buffered e i d s"
proof -
  let ?removed = "idmap_remove i buf"
  have g: "(if 0 < idmap_size ?removed then idmap_get ?removed (maxElementId e ?removed) else None)
             = maxOf e ?removed"
    by (simp add: maxOf_def idmap_size_def)
  show ?thesis
  proof (cases "comparator e (Some d) (maxOf e pub) < 0")
    case True
    then show ?thesis using assms
      by (simp add: handleDoc_buffered_def table_buffered_def Let_def maxOf_get bufferOf_def
          publishedOf_def)
  next
    case False
    then show ?thesis using assms
      by (simp add: handleDoc_buffered_def table_buffered_def Let_def g sortsNotAfter_def
          maxOf_get bufferOf_def publishedOf_def split del: if_split)
  qed
qed

lemma addBuffered_samePollState: "addBuffered e i d s = Inr s' \<Longrightarrow> samePollState s s'"
  by (cases "unpublishedBuffer s")
     (auto simp: addBuffered_def Let_def samePollState_def split: if_splits)

lemma samePollState_trans: "samePollState s s1 \<Longrightarrow> samePollState s1 s2 \<Longrightarrow> samePollState s s2"
  by (simp add: samePollState_def)

lemma addPublished_samePollState:
  assumes "addPublished e i d s = Inr s'"
  shows "samePollState s s'"
proof -
  obtain pub where pub: "published s = Some pub"
    using assms by (cases "published s") (simp_all add: addPublished_def)
  let ?pub1 = "idmap_set i (sharedProjectionFn e d) pub"
  let ?a = "Added i (projectionFn e (delete_key ''_id'' d))"
  show ?thesis
  proof (cases "limit s \<noteq> 0 \<and> idmap_size ?pub1 > limit s")
    case False
    then have "s' = s\<lparr>published := Some ?pub1, emitted := emitted s @ [?a]\<rparr>"
      using assms pub by (auto simp: addPublished_def Let_def)
    then show ?thesis by (simp add: samePollState_def)
  next
    case True
    let ?m = "maxElementId e ?pub1"
    let ?s2 = "s\<lparr>published := Some (idmap_remove ?m ?pub1), emitted := emitted s @ [?a, Removed ?m]\<rparr>"
    from assms pub True obtain od where r: "addBuffered e ?m od ?s2 = Inr s'"
      by (auto simp: addPublished_def Let_def split: if_splits option.splits)
    have "samePollState s ?s2" by (simp add: samePollState_def)
    from samePollState_trans[OF this addBuffered_samePollState[OF r]] show ?thesis .
  qed
qed

lemma table_buffered_samePollState:
  assumes "table_buffered e i d s = Inr s'"
  shows "samePollState s s'"
proof -
  let ?removed = "idmap_remove i (bufferOf s)"
  let ?s1 = "s\<lparr>unpublishedBuffer := Some ?removed\<rparr>"
  have 1: "samePollState s ?s1" by (simp add: samePollState_def)
  show ?thesis
  proof (cases "comparator e (Some d) (maxOf e (publishedOf s)) < 0")
    case True
    with assms have "addPublished e i d ?s1 = Inr s'"
      by (simp add: table_buffered_def Let_def)
    from samePollState_trans[OF 1 addPublished_samePollState[OF this]] show ?thesis .
  next
    case False
    show ?thesis
    proof (cases "safeAppendToBuffer s \<or> sortsNotAfter e d (maxOf e ?removed)")
      case True
      with assms False have "s' = ?s1\<lparr>unpublishedBuffer := Some (idmap_set i d ?removed)\<rparr>"
        by (simp add: table_buffered_def Let_def)
      then show ?thesis by (simp add: samePollState_def)
    next
      case no: False
      with assms False have "s' = ?s1\<lparr>safeAppendToBuffer := False\<rparr>"
        by (simp add: table_buffered_def Let_def)
      then show ?thesis by (simp add: samePollState_def)
    qed
  qed
qed

text \<open>
  Claim C2. For a document that matches and whose id was cached, \<^verbatim>\<open>_handleDoc\<close> does
  what the table of the specification says: for a published id the row
  \<open>table_published\<close> (\<^verbatim>\<open>changePublished\<close> exactly when the query is unlimited, the
  buffer is empty or the document does not sort after the least buffered one; otherwise
  \<^verbatim>\<open>removePublished\<close> and then \<^verbatim>\<open>addBuffered\<close> or the clearing of
  \<open>safeAppendToBuffer\<close>), for a buffered id the row \<open>table_buffered\<close> (removal from the
  buffer, then \<^verbatim>\<open>addPublished\<close> exactly when the document sorts before the greatest
  published one, else re-insertion or the clearing of \<open>safeAppendToBuffer\<close>), and in
  this second row no repoll is scheduled.
\<close>

theorem handleDoc_follows_table:
  assumes "published s = Some pub" "limit s \<noteq> 0 \<longrightarrow> unpublishedBuffer s \<noteq> None"
    "documentMatches e d"
  shows "(idmap_has pub i \<longrightarrow> handleDoc e i (Some d) s = table_published e i d s)
       \<and> (\<not> idmap_has pub i \<and> limit s \<noteq> 0 \<and> idmap_has (bufferOf s) i
            \<longrightarrow> handleDoc e i (Some d) s = table_buffered e i d s
              \<and> (\<forall>s'. handleDoc e i (Some d) s = Inr s' \<longrightarrow> samePollState s s'))"
proof (intro conjI impI allI)
  assume h: "idmap_has pub i"
  have "handleDoc e i (Some d) s = handleDoc_published e i d pub s"
  proof (cases "limit s = 0")
    case True
    then show ?thesis using assms(1,3) h by (simp add: handleDoc_def)
  next
    case False
    with assms(2) obtain buf where "unpublishedBuffer s = Some buf" by auto
    then show ?thesis using assms(1,3) h False by (simp add: handleDoc_def)
  qed
  then show "handleDoc e i (Some d) s = table_published e i d s"
    using handleDoc_published_table[OF assms(1,2)] by simp
next
  assume h: "\<not> idmap_has pub i \<and> limit s \<noteq> 0 \<and> idmap_has (bufferOf s) i"
  with assms(2) obtain buf where buf: "unpublishedBuffer s = Some buf" by auto
  with h have hb: "idmap_has buf i" by (simp add: bufferOf_def)
  have "handleDoc e i (Some d) s = handleDoc_buffered e i d pub s"
    using assms(1,3) h buf hb by (simp add: handleDoc_def)
  then show eq: "handleDoc e i (Some d) s = table_buffered e i d s"
    using handleDoc_buffered_table[OF assms(1) buf] by simp
  fix s' assume "handleDoc e i (Some d) s = Inr s'"
  with eq show "samePollState s s'" using table_buffered_samePollState by simp
qed

theorem handleDoc_follows_table_witness:
  "published tenAndTwenty = Some [(VNum 1, docN 1 10)]
   \<and> limit tenAndTwenty \<noteq> 0 \<and> unpublishedBuffer tenAndTwenty \<noteq> None
   \<and> documentMatches sortedByN (docN 1 15)
   \<and> idmap_has [(VNum 1, docN 1 10)] (VNum 1)
   \<and> handleDoc sortedByN (VNum 1) (Some (docN 1 15)) tenAndTwenty
       = Inr (tenAndTwenty\<lparr>published := Some [(VNum 1, docN 1 15)],
                           emitted := [Changed (VNum 1) [(''n'', VNum 15)]]\<rparr>)
   \<and> documentMatches sortedByN (docN 2 5)
   \<and> \<not> idmap_has [(VNum 1, docN 1 10)] (VNum 2) \<and> idmap_has (bufferOf tenAndTwenty) (VNum 2)
   \<and> handleDoc sortedByN (VNum 2) (Some (docN 2 5)) tenAndTwenty
       = Inr (tenAndTwenty\<lparr>published := Some [(VNum 2, docN 2 5)],
                           unpublishedBuffer := Some [(VNum 1, docN 1 10)],
                           emitted := [Added (VNum 2) [(''n'', VNum 5)], Removed (VNum 1)]\<rparr>)"
proof -
  have p: "published tenAndTwenty = Some [(VNum 1, docN 1 10)]"
    and l: "limit tenAndTwenty \<noteq> 0 \<longrightarrow> unpublishedBuffer tenAndTwenty \<noteq> None"
    and m1: "documentMatches sortedByN (docN 1 15)"
    and m2: "documentMatches sortedByN (docN 2 5)"
    and h1: "idmap_has [(VNum 1, docN 1 10)] (VNum 1)"
    and h2: "\<not> idmap_has [(VNum 1, docN 1 10)] (VNum 2) \<and> limit tenAndTwenty \<noteq> 0
             \<and> idmap_has (bufferOf tenAndTwenty) (VNum 2)"
    by (simp_all add: tenAndTwenty_def bufferOf_def idmap_defs example_defs)
  from handleDoc_follows_table[OF p l m1, of "VNum 1"] h1
  have "handleDoc sortedByN (VNum 1) (Some (docN 1 15)) tenAndTwenty
          = table_published sortedByN (VNum 1) (docN 1 15) tenAndTwenty" by blast
  also have "\<dots> = Inr (tenAndTwenty\<lparr>published := Some [(VNum 1, docN 1 15)],
                           emitted := [Changed (VNum 1) [(''n'', VNum 15)]]\<rparr>)"
    by (simp add: table_published_def changePublished_def tenAndTwenty_def bufferOf_def
        publishedOf_def minOf_def Let_def idmap_defs example_defs)
  finally have r1: "handleDoc sortedByN (VNum 1) (Some (docN 1 15)) tenAndTwenty
       = Inr (tenAndTwenty\<lparr>published := Some [(VNum 1, docN 1 15)],
                           emitted := [Changed (VNum 1) [(''n'', VNum 15)]]\<rparr>)" .
  from handleDoc_follows_table[OF p l m2, of "VNum 2"] h2
  have "handleDoc sortedByN (VNum 2) (Some (docN 2 5)) tenAndTwenty
          = table_buffered sortedByN (VNum 2) (docN 2 5) tenAndTwenty" by blast
  also have "\<dots> = Inr (tenAndTwenty\<lparr>published := Some [(VNum 2, docN 2 5)],
                           unpublishedBuffer := Some [(VNum 1, docN 1 10)],
                           emitted := [Added (VNum 2) [(''n'', VNum 5)], Removed (VNum 1)]\<rparr>)"
    by (simp add: table_buffered_def addPublished_def addBuffered_def tenAndTwenty_def bufferOf_def
        publishedOf_def maxOf_def Let_def idmap_defs example_defs)
  finally have r2: "handleDoc sortedByN (VNum 2) (Some (docN 2 5)) tenAndTwenty
       = Inr (tenAndTwenty\<lparr>published := Some [(VNum 2, docN 2 5)],
                           unpublishedBuffer := Some [(VNum 1, docN 1 10)],
                           emitted := [Added (VNum 2) [(''n'', VNum 5)], Removed (VNum 1)]\<rparr>)" .
  have b: "unpublishedBuffer tenAndTwenty \<noteq> None" by (simp add: tenAndTwenty_def)
  from p b m1 m2 h1 h2 r1 r2 show ?thesis by blast
qed

section \<open>The initial query\<close>

lemma samePollState_refl: "samePollState s s"
  by (simp add: samePollState_def)

lemma addMatching_samePollState:
  assumes "addMatching e d s = Inr s'"
  shows "samePollState s s'"
proof -
  from addMatching_cases[of e d s] assms consider "addPublished e (doc_id d) d s = Inr s'"
    | "addBuffered e (doc_id d) d s = Inr s'"
    | "s' = s\<lparr>safeAppendToBuffer := False\<rparr>"
    by auto
  then show ?thesis
  proof cases
    case 1 then show ?thesis by (rule addPublished_samePollState)
  next
    case 2 then show ?thesis by (rule addBuffered_samePollState)
  next
    case 3 then show ?thesis by (simp add: samePollState_def)
  qed
qed

lemma foldE_samePollState:
  assumes "\<And>x s s'. f x s = Inr s' \<Longrightarrow> samePollState s s'"
  shows "foldE f xs s = Inr s' \<Longrightarrow> samePollState s s'"
proof (induction xs arbitrary: s)
  case Nil
  then show ?case by (simp add: samePollState_refl)
next
  case (Cons x xs)
  from Cons.prems obtain s1 where s1: "f x s = Inr s1" "foldE f xs s1 = Inr s'"
    by (auto simp: bindE_Inr_iff)
  from samePollState_trans[OF assms[OF s1(1)] Cons.IH[OF s1(2)]] show ?case .
qed

lemma bindE_cong_Inr:
  assumes "\<And>x. m = Inr x \<Longrightarrow> f x = g x"
  shows "bindE m f = bindE m g"
  using assms by (cases m) simp_all

lemma runInitialQuery_spec:
  assumes "\<not> stopped s"
  shows "runInitialQuery e run s = initialQuery_spec e run s"
proof -
  let ?docs = "run \<lparr>cur_limit = 2 * limit s, cur_fieldsShared = True, cur_transform = False\<rparr>"
  have c: "cursorForQuery (limit s * 2)
             = \<lparr>cur_limit = 2 * limit s, cur_fieldsShared = True, cur_transform = False\<rparr>"
    by (simp add: cursorForQuery_def mult.commute)
  have k: "(let fetchedDocsCount = length ?docs;
                s2 = s1\<lparr>safeAppendToBuffer := (fetchedDocsCount < limit s1 * 2)\<rparr>
            in if stopped s2 then Inl (Error ''oplog stopped quite early'', s2)
               else Inr (doneQuerying (s2\<lparr>emitted := emitted s2 @ [Ready]\<rparr>)))
           = Inr (doneQuerying (s1\<lparr>safeAppendToBuffer := (length ?docs < 2 * limit s),
                                     emitted := emitted s1 @ [Ready]\<rparr>))"
    if "foldE (addMatching e) ?docs s = Inr s1" for s1
  proof -
    have "cacheStep e s s1"
      by (rule foldE_cacheStep[OF _ that]) (rule addMatching_cacheStep)
    then have "limit s1 = limit s" "stopped s1 = stopped s" by (simp_all add: cacheStep_def)
    then show ?thesis using assms by (simp add: Let_def mult.commute)
  qed
  have "runInitialQuery e run s
          = bindE (foldE (addMatching e) ?docs s)
              (\<lambda>s1. let fetchedDocsCount = length ?docs;
                         s2 = s1\<lparr>safeAppendToBuffer := (fetchedDocsCount < limit s1 * 2)\<rparr>
                     in if stopped s2 then Inl (Error ''oplog stopped quite early'', s2)
                        else Inr (doneQuerying (s2\<lparr>emitted := emitted s2 @ [Ready]\<rparr>)))"
    using assms unfolding runInitialQuery_def c by (simp add: Let_def)
  also have "\<dots> = initialQuery_spec e run s"
    unfolding initialQuery_spec_def Let_def by (rule bindE_cong_Inr) (use k in \<open>simp add: Let_def\<close>)
  finally show ?thesis .
qed

lemma runInitialQuery_result:
  assumes "\<not> stopped s" "runInitialQuery e run s = Inr s'"
  shows "safeAppendToBuffer s'
           = (length (run \<lparr>cur_limit = 2 * limit s, cur_fieldsShared = True, cur_transform = False\<rparr>)
                < 2 * limit s)"
    and "\<exists>evs. emitted s' = emitted s @ evs @ [Ready] \<and> list_all (cacheEvent e) evs"
    and "deferred s' = deferred s @ [DoneQueryingResume]"
    and "phase s' = phase s"
proof -
  let ?docs = "run \<lparr>cur_limit = 2 * limit s, cur_fieldsShared = True, cur_transform = False\<rparr>"
  from assms(2) runInitialQuery_spec[OF assms(1), of e run]
  obtain s1 where f: "foldE (addMatching e) ?docs s = Inr s1"
    and s': "s' = doneQuerying (s1\<lparr>safeAppendToBuffer := (length ?docs < 2 * limit s),
                                     emitted := emitted s1 @ [Ready]\<rparr>)"
    by (auto simp: initialQuery_spec_def Let_def bindE_Inr_iff)
  have cs: "cacheStep e s s1"
    by (rule foldE_cacheStep[OF _ f]) (rule addMatching_cacheStep)
  have ps: "samePollState s s1"
    by (rule foldE_samePollState[OF _ f]) (rule addMatching_samePollState)
  from cs assms(1) have ns: "\<not> stopped s1" by (simp add: cacheStep_def)
  from cs obtain evs where evs: "emitted s1 = emitted s @ evs" "list_all (cacheEvent e) evs"
    by (auto simp: cacheStep_def)
  show "safeAppendToBuffer s' = (length ?docs < 2 * limit s)"
    using s' ns by (simp add: doneQuerying_def)
  show "\<exists>evs. emitted s' = emitted s @ evs @ [Ready] \<and> list_all (cacheEvent e) evs"
    using s' ns evs by (auto simp: doneQuerying_def)
  show "deferred s' = deferred s @ [DoneQueryingResume]"
    using s' ns ps by (simp add: doneQuerying_def samePollState_def)
  show "phase s' = phase s"
    using s' ns ps by (simp add: doneQuerying_def samePollState_def)
qed

text \<open>
  Claim C8. When the driver is not stopped, \<^verbatim>\<open>_runInitialQuery\<close> is the initial
  query of the specification: its cursor has twice the configured limit,
  \<^verbatim>\<open>_addMatching\<close> is called on every document the cursor returns, in order, and when
  all calls return, \<open>safeAppendToBuffer\<close> is true exactly when the number of documents is
  below twice the limit, \<^verbatim>\<open>ready\<close> is the last call on the multiplexer, after the
  calls of the caches, and \<^verbatim>\<open>_doneQuerying\<close> has left its continuation behind.
\<close>

theorem runInitialQuery_follows_spec:
  assumes "\<not> stopped s"
  shows "runInitialQuery e run s = initialQuery_spec e run s
       \<and> (\<forall>s'. runInitialQuery e run s = Inr s' \<longrightarrow>
             safeAppendToBuffer s'
               = (length (run \<lparr>cur_limit = 2 * limit s, cur_fieldsShared = True,
                              cur_transform = False\<rparr>) < 2 * limit s)
             \<and> (\<exists>evs. emitted s' = emitted s @ evs @ [Ready] \<and> list_all (cacheEvent e) evs)
             \<and> deferred s' = deferred s @ [DoneQueryingResume])"
  using runInitialQuery_spec[OF assms] runInitialQuery_result[OF assms] by blast

theorem runInitialQuery_follows_spec_witness:
  "\<not> stopped (initialState 2)
   \<and> length (fourDocs \<lparr>cur_limit = 2 * limit (initialState 2), cur_fieldsShared = True,
                         cur_transform = False\<rparr>) = 4
   \<and> runInitialQuery sortedByN fourDocs (initialState 2)
       = Inr ((initialState 2)
               \<lparr>published := Some [(VNum 1, docN 1 10), (VNum 2, docN 2 20)],
                safeAppendToBuffer := False,
                emitted := [Added (VNum 1) [(''n'', VNum 10)], Added (VNum 2) [(''n'', VNum 20)],
                            Ready],
                deferred := [RunInitialQuery, DoneQueryingResume]\<rparr>)"
proof -
  have n: "\<not> stopped (initialState 2)" by (simp add: initialState_def)
  have l: "length (fourDocs \<lparr>cur_limit = 2 * limit (initialState 2), cur_fieldsShared = True,
                         cur_transform = False\<rparr>) = 4"
    by (simp add: fourDocs_def initialState_def)
  have d: "fourDocs \<lparr>cur_limit = 2 * limit (initialState 2), cur_fieldsShared = True,
                         cur_transform = False\<rparr>
             = [docN 1 10, docN 2 20, docN 3 30, docN 4 40]"
    by (simp add: fourDocs_def initialState_def)
  from runInitialQuery_follows_spec[OF n, of sortedByN fourDocs]
  have "runInitialQuery sortedByN fourDocs (initialState 2)
          = initialQuery_spec sortedByN fourDocs (initialState 2)" by blast
  also have "\<dots> = Inr ((initialState 2)
               \<lparr>published := Some [(VNum 1, docN 1 10), (VNum 2, docN 2 20)],
                safeAppendToBuffer := False,
                emitted := [Added (VNum 1) [(''n'', VNum 10)], Added (VNum 2) [(''n'', VNum 20)],
                            Ready],
                deferred := [RunInitialQuery, DoneQueryingResume]\<rparr>)"
    unfolding initialQuery_spec_def d
    by (simp add: Let_def addMatching_def addPublished_def addBuffered_def doneQuerying_def
        idmap_defs example_defs)
  finally show ?thesis using n l by blast
qed

section \<open>Updates in the phases FETCHING and STEADY\<close>

lemma starts_with_iff: "starts_with p cs \<longleftrightarrow> (\<exists>q. cs = p @ q)"
  by (induction p cs rule: starts_with.induct) auto

lemma test_EJSON_iff: "test_EJSON cs \<longleftrightarrow> (\<exists>p q. cs = p @ ''EJSON$'' @ q)"
proof (induction cs)
  case Nil
  then show ?case by simp
next
  case (Cons c cs)
  show ?case
  proof
    assume "test_EJSON (c # cs)"
    then consider "starts_with ''EJSON$'' (c # cs)" | "test_EJSON cs" by auto
    then show "\<exists>p q. c # cs = p @ ''EJSON$'' @ q"
    proof cases
      case 1
      then obtain q where "c # cs = ''EJSON$'' @ q" unfolding starts_with_iff by blast
      then have "c # cs = [] @ ''EJSON$'' @ q" by simp
      then show ?thesis by blast
    next
      case 2
      with Cons.IH obtain p q where "cs = p @ ''EJSON$'' @ q" by blast
      then have "c # cs = (c # p) @ ''EJSON$'' @ q" by simp
      then show ?thesis by blast
    qed
  next
    assume "\<exists>p q. c # cs = p @ ''EJSON$'' @ q"
    then obtain p q where pq: "c # cs = p @ ''EJSON$'' @ q" by blast
    show "test_EJSON (c # cs)"
    proof (cases p)
      case Nil
      with pq have "starts_with ''EJSON$'' (c # cs)" unfolding starts_with_iff by auto
      then show ?thesis by simp
    next
      case (Cons a p')
      with pq have "cs = p' @ ''EJSON$'' @ q" by simp
      with Cons.IH have "test_EJSON cs" by blast
      then show ?thesis by simp
    qed
  qed
qed

lemma modifierCanBeDirectlyApplied_markerFree: "modifierCanBeDirectlyApplied m = markerFree m"
  unfolding modifierCanBeDirectlyApplied_def markerFree_def list_all_iff test_EJSON_iff
  by (auto split: val.splits)

lemma update_not_in_fetch:
  assumes "op_kind op = ''u''" "notInFetch (idForOp e op) s"
  shows "handleOplogEntrySteadyOrFetching e op s = handleUpdate e (idForOp e op) op s"
proof -
  from assms(2) obtain ntf where ntf: "needToFetch s = Some ntf" "\<not> idmap_has ntf (idForOp e op)"
    by (cases "needToFetch s") (simp_all add: notInFetch_def)
  from assms(2) have cf: "currentlyFetching s = None
       \<or> (\<exists>cf. currentlyFetching s = Some cf \<and> \<not> idmap_has cf (idForOp e op))"
    by (cases "currentlyFetching s") (simp_all add: notInFetch_def)
  have "(if phase s = FETCHING then
               (case currentlyFetching s of
                  Some cf \<Rightarrow>
                    if idmap_has cf (idForOp e op) then Inr True
                    else (case needToFetch s of
                            None \<Rightarrow> Inl (TypeError, s)
                          | Some ntf \<Rightarrow> Inr (idmap_has ntf (idForOp e op)))
                | None \<Rightarrow>
                    (case needToFetch s of
                       None \<Rightarrow> Inl (TypeError, s)
                     | Some ntf \<Rightarrow> Inr (idmap_has ntf (idForOp e op))))
             else Inr False) = Inr False"
    using ntf cf by auto
  then show ?thesis
    using assms(1) by (simp add: handleOplogEntrySteadyOrFetching_def Let_def)
qed

lemma handleUpdate_modifier:
  assumes pub: "published s = Some pub"
    and buf: "limit s \<noteq> 0 \<longrightarrow> unpublishedBuffer s \<noteq> None"
    and ntf: "needToFetch s = Some ntf"
    and m: "isModifier (op_o op)"
  shows "markerFree (op_o op) \<and> isCached i s \<Longrightarrow>
           handleUpdate e i op s =
             (case cachedDoc i s of
                None \<Rightarrow> Inl (TypeError, s)
              | Some c \<Rightarrow>
                  (case modify e (AList.update ''_id'' i c) (op_o op) of
                     Inl x \<Rightarrow> Inl (x, s)
                   | Inr newDoc \<Rightarrow> handleDoc e i (Some (sharedProjectionFn e newDoc)) s))"
    and "\<not> (markerFree (op_o op) \<and> isCached i s)
           \<and> (\<not> markerFree (op_o op) \<or> canBecomeTrueByModifier e (op_o op)) \<Longrightarrow>
           handleUpdate e i op s =
             Inr (if phase s = STEADY
                  then s\<lparr>needToFetch := Some (idmap_set i (op_ts op) ntf), phase := FETCHING,
                         deferred := deferred s @ [FetchLoop]\<rparr>
                  else s\<lparr>needToFetch := Some (idmap_set i (op_ts op) ntf)\<rparr>)"
    and "markerFree (op_o op) \<and> \<not> isCached i s \<and> \<not> canBecomeTrueByModifier e (op_o op) \<Longrightarrow>
           handleUpdate e i op s = Inr s"
proof -
  have rep: "(\<not> has_key (op_o op) ''$set'' \<and> \<not> has_key (op_o op) ''$unset'') = False"
    using m by (simp add: isModifier_def)
  have bb: "\<exists>b. (if limit s = 0 then Inr False
             else case unpublishedBuffer s of
                    None \<Rightarrow> Inl (TypeError, s)
                  | Some buf \<Rightarrow> Inr (idmap_has buf i)) = Inr b
             \<and> (b \<longleftrightarrow> limit s \<noteq> 0 \<and> idmap_has (bufferOf s) i)"
    using buf by (cases "unpublishedBuffer s") (auto simp: bufferOf_def)
  then obtain b where b: "(if limit s = 0 then Inr False
             else case unpublishedBuffer s of
                    None \<Rightarrow> Inl (TypeError, s)
                  | Some buf \<Rightarrow> Inr (idmap_has buf i)) = Inr b"
    and bi: "b \<longleftrightarrow> limit s \<noteq> 0 \<and> idmap_has (bufferOf s) i" by blast
  have cached: "(idmap_has pub i \<or> b) = isCached i s"
    using pub bi by (simp add: isCached_def publishedOf_def)
  have unfolded: "handleUpdate e i op s =
      (if isCached i s \<and> markerFree (op_o op) then
         bindE (if idmap_has pub i then Inr (idmap_get pub i)
                else case unpublishedBuffer s of
                       None \<Rightarrow> Inl (TypeError, s)
                     | Some buf \<Rightarrow> Inr (idmap_get buf i))
           (\<lambda>cached.
              case cached of
                None \<Rightarrow> Inl (TypeError, s)
              | Some c \<Rightarrow>
                  (case modify e (AList.update ''_id'' i c) (op_o op) of
                     Inl x \<Rightarrow> Inl (x, s)
                   | Inr newDoc \<Rightarrow> handleDoc e i (Some (sharedProjectionFn e newDoc)) s))
       else if \<not> markerFree (op_o op) \<or> canBecomeTrueByModifier e (op_o op) then
         bindE (queueFetch i (op_ts op) s)
           (\<lambda>s1. if phase s1 = STEADY then Inr (fetchModifiedDocuments s1) else Inr s1)
       else Inr s)"
    unfolding handleUpdate_def Let_def rep
    using pub b cached
    by (simp add: modifierCanBeDirectlyApplied_markerFree split del: if_split cong: if_cong)
  show "handleUpdate e i op s =
             (case cachedDoc i s of
                None \<Rightarrow> Inl (TypeError, s)
              | Some c \<Rightarrow>
                  (case modify e (AList.update ''_id'' i c) (op_o op) of
                     Inl x \<Rightarrow> Inl (x, s)
                   | Inr newDoc \<Rightarrow> handleDoc e i (Some (sharedProjectionFn e newDoc)) s))"
    if a: "markerFree (op_o op) \<and> isCached i s"
  proof (cases "idmap_has pub i")
    case True
    then show ?thesis using a pub unfolding unfolded
      by (simp add: cachedDoc_def publishedOf_def)
  next
    case False
    with a pub have "limit s \<noteq> 0" by (simp add: isCached_def publishedOf_def)
    with buf obtain bf where "unpublishedBuffer s = Some bf" by auto
    then show ?thesis using a pub False unfolding unfolded
      by (simp add: cachedDoc_def publishedOf_def bufferOf_def)
  qed
  show "handleUpdate e i op s =
             Inr (if phase s = STEADY
                  then s\<lparr>needToFetch := Some (idmap_set i (op_ts op) ntf), phase := FETCHING,
                         deferred := deferred s @ [FetchLoop]\<rparr>
                  else s\<lparr>needToFetch := Some (idmap_set i (op_ts op) ntf)\<rparr>)"
    if "\<not> (markerFree (op_o op) \<and> isCached i s)
           \<and> (\<not> markerFree (op_o op) \<or> canBecomeTrueByModifier e (op_o op))"
    using that ntf unfolding unfolded
    by (auto simp: queueFetch_def fetchModifiedDocuments_def registerPhaseChange_def)
  show "handleUpdate e i op s = Inr s"
    if "markerFree (op_o op) \<and> \<not> isCached i s \<and> \<not> canBecomeTrueByModifier e (op_o op)"
    using that unfolding unfolded by simp
qed

lemma handleUpdate_replacement:
  assumes "published s = Some pub" "limit s \<noteq> 0 \<longrightarrow> unpublishedBuffer s \<noteq> None"
    "\<not> isModifier (op_o op)"
  shows "handleUpdate e i op s = handleDoc e i (Some (extend [(''_id'', i)] (op_o op))) s"
proof -
  have "\<exists>b. (if limit s = 0 then Inr False
             else case unpublishedBuffer s of
                    None \<Rightarrow> Inl (TypeError, s)
                  | Some buf \<Rightarrow> Inr (idmap_has buf i)) = Inr b"
    using assms(2) by (cases "unpublishedBuffer s") auto
  then obtain b where "(if limit s = 0 then Inr False
             else case unpublishedBuffer s of
                    None \<Rightarrow> Inl (TypeError, s)
                  | Some buf \<Rightarrow> Inr (idmap_has buf i)) = Inr b" by blast
  moreover have "(\<not> has_key (op_o op) ''$set'' \<and> \<not> has_key (op_o op) ''$unset'') = True"
    using assms(3) by (simp add: isModifier_def)
  ultimately show ?thesis
    unfolding handleUpdate_def Let_def
    using assms(1) by (simp split del: if_split cong: if_cong)
qed

text \<open>
  Claim C4. An update entry that arrives in the phase FETCHING or STEADY for an id that is
  neither queued nor being fetched, on a driver whose caches exist: a modifier without
  marker fields on a cached id is applied to the cached document (with its \<open>_id\<close> set),
  the result is projected by the shared projection and given to \<^verbatim>\<open>_handleDoc\<close>;
  any other modifier that has marker fields or that the matcher says can make the selector
  true is queued in \<open>needToFetch\<close> with the timestamp of the entry, and from STEADY the
  phase becomes FETCHING and the fetch loop is deferred; a modifier without marker fields
  on an uncached id that cannot make the selector true changes nothing. (An update without
  \<open>$set\<close> and \<open>$unset\<close> is a replacement and goes to \<^verbatim>\<open>_handleDoc\<close>.)
\<close>

theorem update_entry_handling:
  assumes "op_kind (n_op n) = ''u''" "\<not> dropCollection n"
    "phase s = FETCHING \<or> phase s = STEADY"
    "notInFetch (idForOp e (n_op n)) s"
    "published s \<noteq> None" "limit s \<noteq> 0 \<longrightarrow> unpublishedBuffer s \<noteq> None"
  shows "(isModifier (op_o (n_op n)) \<and> markerFree (op_o (n_op n))
            \<and> isCached (idForOp e (n_op n)) s
          \<longrightarrow> onOplogEntry e n s =
                (case cachedDoc (idForOp e (n_op n)) s of
                   None \<Rightarrow> Inl (TypeError, s)
                 | Some c \<Rightarrow>
                     (case modify e (AList.update ''_id'' (idForOp e (n_op n)) c) (op_o (n_op n)) of
                        Inl x \<Rightarrow> Inl (x, s)
                      | Inr newDoc \<Rightarrow>
                          handleDoc e (idForOp e (n_op n)) (Some (sharedProjectionFn e newDoc)) s)))
       \<and> (isModifier (op_o (n_op n))
            \<and> \<not> (markerFree (op_o (n_op n)) \<and> isCached (idForOp e (n_op n)) s)
            \<and> (\<not> markerFree (op_o (n_op n)) \<or> canBecomeTrueByModifier e (op_o (n_op n)))
          \<longrightarrow> (\<exists>ntf. needToFetch s = Some ntf
                \<and> onOplogEntry e n s =
                    Inr (if phase s = STEADY
                         then s\<lparr>needToFetch :=
                                  Some (idmap_set (idForOp e (n_op n)) (op_ts (n_op n)) ntf),
                                phase := FETCHING,
                                deferred := deferred s @ [FetchLoop]\<rparr>
                         else s\<lparr>needToFetch :=
                                  Some (idmap_set (idForOp e (n_op n)) (op_ts (n_op n)) ntf)\<rparr>)))
       \<and> (isModifier (op_o (n_op n)) \<and> markerFree (op_o (n_op n))
            \<and> \<not> isCached (idForOp e (n_op n)) s
            \<and> \<not> canBecomeTrueByModifier e (op_o (n_op n))
          \<longrightarrow> onOplogEntry e n s = Inr s)
       \<and> (\<not> isModifier (op_o (n_op n))
          \<longrightarrow> onOplogEntry e n s =
                handleDoc e (idForOp e (n_op n))
                  (Some (extend [(''_id'', idForOp e (n_op n))] (op_o (n_op n)))) s)"
proof -
  let ?op = "n_op n" and ?i = "idForOp e (n_op n)"
  from assms(5) obtain pub where pub: "published s = Some pub" by auto
  from assms(4) obtain ntf where ntf: "needToFetch s = Some ntf"
    by (cases "needToFetch s") (simp_all add: notInFetch_def)
  have "phase s \<noteq> QUERYING" using assms(3) by auto
  then have entry: "onOplogEntry e n s = handleUpdate e ?i ?op s"
    using assms(2) update_not_in_fetch[OF assms(1,4)] by (simp add: onOplogEntry_def)
  note mod = handleUpdate_modifier[OF pub assms(6) ntf, of ?op ?i e]
  note rep = handleUpdate_replacement[OF pub assms(6), of ?op e ?i]
  show ?thesis unfolding entry using mod rep ntf by blast
qed

theorem update_entry_handling_witness:
  "onOplogEntry sortedByN
      \<lparr>n_op = updateOp 1 [(''$set'', VObj [(''n'', VNum 15)])], dropCollection = False\<rparr> steadyOne
     = Inr (steadyOne\<lparr>published := Some [(VNum 1, docN 1 15)],
                      emitted := [Changed (VNum 1) [(''n'', VNum 15)]]\<rparr>)
   \<and> onOplogEntry sortedByN
      \<lparr>n_op = updateOp 7 [(''$set'', VObj [(''n'', VNum 3)])], dropCollection = False\<rparr> steadyOne
     = Inr (steadyOne\<lparr>needToFetch := Some [(VNum 7, ''ts'')], phase := FETCHING,
                      deferred := [RunInitialQuery, FetchLoop]\<rparr>)
   \<and> onOplogEntry sortedByN
      \<lparr>n_op = updateOp 1 [(''$set'', VObj [(''a.EJSON$value'', VNum 3)])],
       dropCollection = False\<rparr> steadyOne
     = Inr (steadyOne\<lparr>needToFetch := Some [(VNum 1, ''ts'')], phase := FETCHING,
                      deferred := [RunInitialQuery, FetchLoop]\<rparr>)
   \<and> onOplogEntry sortedByN
      \<lparr>n_op = updateOp 7 [(''$set'', VObj [(''x'', VNum 3)])], dropCollection = False\<rparr> steadyOne
     = Inr steadyOne
   \<and> onOplogEntry sortedByN
      \<lparr>n_op = updateOp 7 [(''n'', VNum 3)], dropCollection = False\<rparr> steadyOne
     = handleDoc sortedByN (VNum 7) (Some (docN 7 3)) steadyOne"
proof -
  let ?n = "\<lambda>i m. \<lparr>n_op = updateOp i m, dropCollection = False\<rparr>"
  have pre: "op_kind (n_op (?n i m)) = ''u''" "\<not> dropCollection (?n i m)"
    "phase steadyOne = FETCHING \<or> phase steadyOne = STEADY"
    "published steadyOne \<noteq> None" "limit steadyOne \<noteq> 0 \<longrightarrow> unpublishedBuffer steadyOne \<noteq> None"
    for i m
    by (simp_all add: updateOp_def steadyOne_def initialState_def)
  have nf: "notInFetch (idForOp sortedByN (n_op (?n 1 m))) steadyOne"
    "notInFetch (idForOp sortedByN (n_op (?n 7 m))) steadyOne" for m
    by (simp_all add: notInFetch_def updateOp_def steadyOne_def idmap_defs example_defs)
  have ids: "idForOp sortedByN (n_op (?n 1 m)) = VNum 1" "idForOp sortedByN (n_op (?n 7 m)) = VNum 7"
    "op_o (n_op (?n i m)) = m" "op_ts (n_op (?n i m)) = ''ts''" for i m
    by (simp_all add: updateOp_def example_defs)
  have cached: "isCached (VNum 1) steadyOne" "\<not> isCached (VNum 7) steadyOne"
    "cachedDoc (VNum 1) steadyOne = Some (docN 1 10)"
    "needToFetch steadyOne = Some []" "phase steadyOne = STEADY"
    "deferred steadyOne = [RunInitialQuery]"
    by (simp_all add: isCached_def cachedDoc_def publishedOf_def bufferOf_def steadyOne_def
        idmap_defs example_defs)
  have mods: "isModifier [(''$set'', VObj [(''n'', VNum 15)])]"
    "isModifier [(''$set'', VObj [(''n'', VNum 3)])]"
    "isModifier [(''$set'', VObj [(''a.EJSON$value'', VNum 3)])]"
    "isModifier [(''$set'', VObj [(''x'', VNum 3)])]"
    "\<not> isModifier [(''n'', VNum 3)]"
    by (simp_all add: isModifier_def has_key_def)
  have marks: "markerFree [(''$set'', VObj [(''n'', VNum 15)])]"
    "markerFree [(''$set'', VObj [(''n'', VNum 3)])]"
    "\<not> markerFree [(''$set'', VObj [(''a.EJSON$value'', VNum 3)])]"
    "markerFree [(''$set'', VObj [(''x'', VNum 3)])]"
    unfolding modifierCanBeDirectlyApplied_markerFree[symmetric]
    by (simp_all add: modifierCanBeDirectlyApplied_def)
  have can: "canBecomeTrueByModifier sortedByN [(''$set'', VObj [(''n'', VNum 3)])]"
    "\<not> canBecomeTrueByModifier sortedByN [(''$set'', VObj [(''x'', VNum 3)])]"
    by (simp_all add: sortedByN_def has_key_def)
  from update_entry_handling[OF pre(1,2,3) nf(1) pre(4,5), of "[(''$set'', VObj [(''n'', VNum 15)])]"]
    mods(1) marks(1) cached(1,3)
  have "onOplogEntry sortedByN (?n 1 [(''$set'', VObj [(''n'', VNum 15)])]) steadyOne
          = (case modify sortedByN (AList.update ''_id'' (VNum 1) (docN 1 10))
                     [(''$set'', VObj [(''n'', VNum 15)])] of
               Inl x \<Rightarrow> Inl (x, steadyOne)
             | Inr newDoc \<Rightarrow>
                 handleDoc sortedByN (VNum 1) (Some (sharedProjectionFn sortedByN newDoc))
                   steadyOne)"
    unfolding ids by simp
  also have "\<dots> = Inr (steadyOne\<lparr>published := Some [(VNum 1, docN 1 15)],
                      emitted := [Changed (VNum 1) [(''n'', VNum 15)]]\<rparr>)"
    by (simp add: handleDoc_def handleDoc_published_def changePublished_def steadyOne_def Let_def
        idmap_defs example_defs)
  finally have a: "onOplogEntry sortedByN (?n 1 [(''$set'', VObj [(''n'', VNum 15)])]) steadyOne
     = Inr (steadyOne\<lparr>published := Some [(VNum 1, docN 1 15)],
                      emitted := [Changed (VNum 1) [(''n'', VNum 15)]]\<rparr>)" .
  from update_entry_handling[OF pre(1,2,3) nf(2) pre(4,5), of "[(''$set'', VObj [(''n'', VNum 3)])]"]
    mods(2) marks(2) cached(2,4,5,6) can(1)
  have b: "onOplogEntry sortedByN (?n 7 [(''$set'', VObj [(''n'', VNum 3)])]) steadyOne
     = Inr (steadyOne\<lparr>needToFetch := Some [(VNum 7, ''ts'')], phase := FETCHING,
                      deferred := [RunInitialQuery, FetchLoop]\<rparr>)"
    unfolding ids by (simp add: idmap_set_def)
  from update_entry_handling[OF pre(1,2,3) nf(1) pre(4,5),
      of "[(''$set'', VObj [(''a.EJSON$value'', VNum 3)])]"]
    mods(3) marks(3) cached(4,5,6)
  have c: "onOplogEntry sortedByN (?n 1 [(''$set'', VObj [(''a.EJSON$value'', VNum 3)])]) steadyOne
     = Inr (steadyOne\<lparr>needToFetch := Some [(VNum 1, ''ts'')], phase := FETCHING,
                      deferred := [RunInitialQuery, FetchLoop]\<rparr>)"
    unfolding ids by (simp add: idmap_set_def)
  from update_entry_handling[OF pre(1,2,3) nf(2) pre(4,5), of "[(''$set'', VObj [(''x'', VNum 3)])]"]
    mods(4) marks(4) cached(2) can(2)
  have d: "onOplogEntry sortedByN (?n 7 [(''$set'', VObj [(''x'', VNum 3)])]) steadyOne
     = Inr steadyOne"
    unfolding ids by simp
  from update_entry_handling[OF pre(1,2,3) nf(2) pre(4,5), of "[(''n'', VNum 3)]"] mods(5)
  have "onOplogEntry sortedByN (?n 7 [(''n'', VNum 3)]) steadyOne
     = handleDoc sortedByN (VNum 7) (Some (extend [(''_id'', VNum 7)] [(''n'', VNum 3)])) steadyOne"
    unfolding ids by simp
  then have r: "onOplogEntry sortedByN (?n 7 [(''n'', VNum 3)]) steadyOne
     = handleDoc sortedByN (VNum 7) (Some (docN 7 3)) steadyOne"
    by (simp add: extend_def docN_def)
  from a b c d r show ?thesis by blast
qed

section \<open>What a throw leaves behind\<close>

text \<open>
  An operation that throws has made, up to the throw, changes of the same kind as one
  that returns: the footprint \<open>cacheStep\<close> holds from the state before the call to the
  state that comes with the error.
\<close>

lemma bindE_Inl_iff: "bindE m f = Inl x \<longleftrightarrow> m = Inl x \<or> (\<exists>y. m = Inr y \<and> f y = Inl x)"
  by (cases m) auto

lemma addBuffered_thrown: "addBuffered e i d s = Inl (x, s') \<Longrightarrow> s' = s \<and> x = TypeError"
  by (cases "unpublishedBuffer s") (auto simp: addBuffered_def Let_def split: if_splits)

lemma removeBuffered_thrown: "removeBuffered i s = Inl (x, s') \<Longrightarrow> s' = s \<and> x = TypeError"
  by (cases "unpublishedBuffer s") (auto simp: removeBuffered_def Let_def split: if_splits)

lemma changePublished_thrown:
  "changePublished e i oldDoc d s = Inl (x, s') \<Longrightarrow> s' = s \<and> x = TypeError"
  by (cases "published s") (auto simp: changePublished_def Let_def)

lemma addPublished_thrown_cases:
  assumes "addPublished e i d s = Inl (x, s')" "published s = Some pub"
  shows "s' = s\<lparr>published := Some (idmap_set i (sharedProjectionFn e d) pub),
                 emitted := emitted s @ [Added i (projectionFn e (delete_key ''_id'' d))]\<rparr>
         \<or> s' = s\<lparr>published :=
                     Some (idmap_remove (maxElementId e (idmap_set i (sharedProjectionFn e d) pub))
                             (idmap_set i (sharedProjectionFn e d) pub)),
                   emitted := emitted s @
                     [Added i (projectionFn e (delete_key ''_id'' d)),
                      Removed (maxElementId e (idmap_set i (sharedProjectionFn e d) pub))]\<rparr>"
proof -
  let ?pub1 = "idmap_set i (sharedProjectionFn e d) pub"
  let ?a = "Added i (projectionFn e (delete_key ''_id'' d))"
  let ?m = "maxElementId e ?pub1"
  let ?s1 = "s\<lparr>published := Some ?pub1, emitted := emitted s @ [?a]\<rparr>"
  let ?s2 = "s\<lparr>published := Some (idmap_remove ?m ?pub1), emitted := emitted s @ [?a, Removed ?m]\<rparr>"
  show ?thesis
  proof (cases "limit s \<noteq> 0 \<and> idmap_size ?pub1 > limit s")
    case False
    with assms show ?thesis by (auto simp: addPublished_def Let_def)
  next
    case over: True
    show ?thesis
    proof (cases "idmap_size ?pub1 \<noteq> limit s + 1 \<or> ?m = i")
      case True
      with assms over have "s' = ?s1"
        by (auto simp: addPublished_def Let_def split: if_splits)
      then show ?thesis by simp
    next
      case False
      with assms over have
        r: "(case idmap_get ?pub1 ?m of None \<Rightarrow> Inl (TypeError, ?s2)
             | Some od \<Rightarrow> addBuffered e ?m od ?s2) = Inl (x, s')"
        by (simp add: addPublished_def Let_def split: if_splits)
      have "s' = ?s2"
      proof (cases "idmap_get ?pub1 ?m")
        case None
        with r show ?thesis by simp
      next
        case (Some od)
        with r have "addBuffered e ?m od ?s2 = Inl (x, s')" by simp
        from addBuffered_thrown[OF this] show ?thesis by simp
      qed
      then show ?thesis by simp
    qed
  qed
qed

lemma addPublished_thrown:
  assumes "addPublished e i d s = Inl (x, s')"
  shows "cacheStep e s s'"
proof (cases "published s")
  case None
  with assms have "s' = s" by (simp add: addPublished_def)
  then show ?thesis by (simp add: cacheStep_refl)
next
  case (Some pub)
  let ?a = "Added i (projectionFn e (delete_key ''_id'' d))"
  from addPublished_thrown_cases[OF assms Some] show ?thesis
    using cacheStep_emit[of e "[?a]" s]
      cacheStep_emit[of e "[?a, Removed (maxElementId e (idmap_set i (sharedProjectionFn e d) pub))]" s]
    by (auto simp: cacheEvent_simps)
qed

lemma removePublished_thrown_cases:
  assumes "removePublished e i s = Inl (x, s')" "published s = Some pub"
  shows "s' = s\<lparr>published := Some (idmap_remove i pub), emitted := emitted s @ [Removed i]\<rparr>
       \<or> (\<exists>j s2. removeBuffered j
                     (s\<lparr>published := Some (idmap_remove i pub), emitted := emitted s @ [Removed i]\<rparr>)
                   = Inr s2
                 \<and> (s' = s2 \<or> (\<exists>nd. addPublished e j nd s2 = Inl (x, s'))))"
proof -
  let ?s1 = "s\<lparr>published := Some (idmap_remove i pub), emitted := emitted s @ [Removed i]\<rparr>"
  show ?thesis
  proof (cases "limit s \<noteq> 0 \<and> idmap_size (idmap_remove i pub) < limit s")
    case False
    with assms show ?thesis by (auto simp: removePublished_def Let_def split: if_splits)
  next
    case under: True
    show ?thesis
    proof (cases "unpublishedBuffer s")
      case None
      with assms under show ?thesis by (simp add: removePublished_def Let_def split: if_splits)
    next
      case (Some buf)
      show ?thesis
      proof (cases "idmap_size buf = 0")
        case True
        with assms under Some have "s' = ?s1"
          by (simp add: removePublished_def Let_def split: if_splits)
        then show ?thesis by simp
      next
        case False
        let ?j = "minElementId e buf"
        from assms under Some False have
          r: "bindE (removeBuffered ?j ?s1)
                (\<lambda>s2. case idmap_get buf ?j of None \<Rightarrow> Inl (TypeError, s2)
                       | Some nd \<Rightarrow> addPublished e ?j nd s2) = Inl (x, s')"
          by (simp add: removePublished_def Let_def split: if_splits)
        then consider "removeBuffered ?j ?s1 = Inl (x, s')"
          | s2 where "removeBuffered ?j ?s1 = Inr s2"
              "(case idmap_get buf ?j of None \<Rightarrow> Inl (TypeError, s2)
                | Some nd \<Rightarrow> addPublished e ?j nd s2) = Inl (x, s')"
          unfolding bindE_Inl_iff by blast
        then show ?thesis
        proof cases
          case 1
          from removeBuffered_thrown[OF 1] show ?thesis by simp
        next
          case 2
          from 2(2) have "s' = s2 \<or> (\<exists>nd. addPublished e ?j nd s2 = Inl (x, s'))"
            by (cases "idmap_get buf ?j") auto
          with 2(1) show ?thesis by blast
        qed
      qed
    qed
  qed
qed

lemma removePublished_thrown:
  assumes "removePublished e i s = Inl (x, s')"
  shows "cacheStep e s s'"
proof (cases "published s")
  case None
  with assms have "s' = s" by (simp add: removePublished_def)
  then show ?thesis by (simp add: cacheStep_refl)
next
  case (Some pub)
  let ?s1 = "s\<lparr>published := Some (idmap_remove i pub), emitted := emitted s @ [Removed i]\<rparr>"
  have 1: "cacheStep e s ?s1"
    using cacheStep_emit[of e "[Removed i]" s] by (simp add: cacheEvent_simps)
  from removePublished_thrown_cases[OF assms Some] consider "s' = ?s1"
    | j s2 where "removeBuffered j ?s1 = Inr s2" "s' = s2"
    | j s2 nd where "removeBuffered j ?s1 = Inr s2" "addPublished e j nd s2 = Inl (x, s')"
    by blast
  then show ?thesis
  proof cases
    case 1
    then show ?thesis using \<open>cacheStep e s ?s1\<close> by simp
  next
    case 2
    from cacheStep_trans[OF 1 removeBuffered_cacheStep[OF 2(1)]] 2(2) show ?thesis by simp
  next
    case 3
    from cacheStep_trans[OF 1 cacheStep_trans[OF removeBuffered_cacheStep[OF 3(1)]
          addPublished_thrown[OF 3(2)]]]
    show ?thesis .
  qed
qed

lemma addMatching_thrown_cases:
  "addMatching e d s = Inl (x, s') \<Longrightarrow>
     s' = s \<or> addPublished e (doc_id d) d s = Inl (x, s')
     \<or> addBuffered e (doc_id d) d s = Inl (x, s')"
  by (cases "published s"; cases "unpublishedBuffer s")
     (auto simp: addMatching_def Let_def split: if_splits)

lemma addMatching_thrown:
  assumes "addMatching e d s = Inl (x, s')"
  shows "cacheStep e s s'"
  using addMatching_thrown_cases[OF assms] addPublished_thrown[of e "doc_id d" d s x s']
    addBuffered_thrown[of e "doc_id d" d s x s'] cacheStep_refl[of e s]
  by auto

lemma removeMatching_thrown_cases:
  "removeMatching e i s = Inl (x, s') \<Longrightarrow>
     s' = s \<or> removePublished e i s = Inl (x, s') \<or> removeBuffered i s = Inl (x, s')"
  by (cases "published s"; cases "unpublishedBuffer s")
     (auto simp: removeMatching_def Let_def split: if_splits)

lemma removeMatching_thrown:
  assumes "removeMatching e i s = Inl (x, s')"
  shows "cacheStep e s s'"
  using removeMatching_thrown_cases[OF assms] removePublished_thrown[of e i s x s']
    removeBuffered_thrown[of i s x s'] cacheStep_refl[of e s]
  by auto

lemma handleDoc_published_thrown:
  assumes "handleDoc_published e i d pub s = Inl (x, s')"
  shows "cacheStep e s s'"
proof -
  from handleDoc_published_cases[of e i d pub s] consider
      (chg) "handleDoc_published e i d pub s = changePublished e i (idmap_get pub i) d s"
    | (mv) "handleDoc_published e i d pub s =
        bindE (removePublished e i s)
          (\<lambda>s1. case unpublishedBuffer s1 of
                   None \<Rightarrow> Inl (TypeError, s1)
                 | Some buf1 \<Rightarrow>
                     let maxBuffered = idmap_get buf1 (maxElementId e buf1);
                         toBuffer =
                           (safeAppendToBuffer s1
                              \<or> (maxBuffered \<noteq> None
                                   \<and> comparator e (Some d) maxBuffered \<le> 0))
                     in if toBuffer then addBuffered e i d s1
                        else Inr (s1\<lparr>safeAppendToBuffer := False\<rparr>))"
    | (own) "s' = s"
    using assms
    by (cases "unpublishedBuffer s") (auto simp: handleDoc_published_def Let_def split: if_splits)
  then show ?thesis
  proof cases
    case chg
    with assms changePublished_thrown[of e i "idmap_get pub i" d s x s'] show ?thesis
      by (simp add: cacheStep_refl)
  next
    case mv
    with assms consider "removePublished e i s = Inl (x, s')"
      | s1 where "removePublished e i s = Inr s1"
          "(case unpublishedBuffer s1 of
                   None \<Rightarrow> Inl (TypeError, s1)
                 | Some buf1 \<Rightarrow>
                     let maxBuffered = idmap_get buf1 (maxElementId e buf1);
                         toBuffer =
                           (safeAppendToBuffer s1
                              \<or> (maxBuffered \<noteq> None
                                   \<and> comparator e (Some d) maxBuffered \<le> 0))
                     in if toBuffer then addBuffered e i d s1
                        else Inr (s1\<lparr>safeAppendToBuffer := False\<rparr>)) = Inl (x, s')"
      by (auto simp: bindE_Inl_iff)
    then show ?thesis
    proof cases
      case 1 then show ?thesis by (rule removePublished_thrown)
    next
      case 2
      from 2(2) have "s' = s1 \<or> addBuffered e i d s1 = Inl (x, s')"
        by (cases "unpublishedBuffer s1") (auto simp: Let_def split: if_splits)
      then have "s' = s1" using addBuffered_thrown[of e i d s1 x s'] by auto
      with removePublished_cacheStep[OF 2(1)] show ?thesis by simp
    qed
  next
    case own
    then show ?thesis by (simp add: cacheStep_refl)
  qed
qed

lemma handleDoc_buffered_thrown:
  assumes "handleDoc_buffered e i d pub s = Inl (x, s')"
  shows "cacheStep e s s'"
proof (cases "unpublishedBuffer s")
  case None
  with assms have "s' = s" by (simp add: handleDoc_buffered_def)
  then show ?thesis by (simp add: cacheStep_refl)
next
  case (Some buf)
  let ?s1 = "s\<lparr>unpublishedBuffer := Some (idmap_remove i buf)\<rparr>"
  from assms Some have "addPublished e i d ?s1 = Inl (x, s')"
    by (simp add: handleDoc_buffered_def Let_def split: if_splits)
  moreover have "cacheStep e s ?s1" by (simp add: cacheStep_def)
  ultimately show ?thesis using cacheStep_trans addPublished_thrown by blast
qed

lemma handleDoc_thrown_cases:
  assumes "handleDoc e i newDoc s = Inl (x, s')" "published s = Some pub"
  shows "s' = s \<or> removeMatching e i s = Inl (x, s')
       \<or> (\<exists>d. addMatching e d s = Inl (x, s'))
       \<or> (\<exists>d. handleDoc_published e i d pub s = Inl (x, s'))
       \<or> (\<exists>d. handleDoc_buffered e i d pub s = Inl (x, s'))"
proof -
  from assms have
    "bindE (if limit s = 0 then Inr False
            else case unpublishedBuffer s of
                   None \<Rightarrow> Inl (TypeError, s)
                 | Some buf \<Rightarrow> Inr (idmap_has buf i))
       (\<lambda>bufferedBefore.
          let matching = (case newDoc of
                            None \<Rightarrow> None
                          | Some d \<Rightarrow> if documentMatches e d then Some d else None);
              publishedBefore = idmap_has pub i;
              cachedBefore = (publishedBefore \<or> bufferedBefore)
          in case matching of
               None \<Rightarrow> if cachedBefore then removeMatching e i s else Inr s
             | Some d \<Rightarrow>
                 if \<not> cachedBefore then addMatching e d s
                 else if publishedBefore then handleDoc_published e i d pub s
                 else if bufferedBefore then handleDoc_buffered e i d pub s
                 else Inl (Error ''cachedBefore implies either of publishedBefore or bufferedBefore is true.'', s))
     = Inl (x, s')"
    by (simp add: handleDoc_def)
  then consider
      "(if limit s = 0 then Inr False
            else case unpublishedBuffer s of
                   None \<Rightarrow> Inl (TypeError, s)
                 | Some buf \<Rightarrow> Inr (idmap_has buf i)) = Inl (x, s')"
    | b where "(let matching = (case newDoc of
                            None \<Rightarrow> None
                          | Some d \<Rightarrow> if documentMatches e d then Some d else None);
              publishedBefore = idmap_has pub i;
              cachedBefore = (publishedBefore \<or> b)
          in case matching of
               None \<Rightarrow> if cachedBefore then removeMatching e i s else Inr s
             | Some d \<Rightarrow>
                 if \<not> cachedBefore then addMatching e d s
                 else if publishedBefore then handleDoc_published e i d pub s
                 else if b then handleDoc_buffered e i d pub s
                 else Inl (Error ''cachedBefore implies either of publishedBefore or bufferedBefore is true.'', s))
     = Inl (x, s')"
    unfolding bindE_Inl_iff by blast
  then show ?thesis
  proof cases
    case 1
    then have "s' = s" by (cases "unpublishedBuffer s") (auto split: if_splits)
    then show ?thesis by simp
  next
    case 2
    define matching where "matching = (case newDoc of
                            None \<Rightarrow> None
                          | Some d \<Rightarrow> if documentMatches e d then Some d else None)"
    from 2 have m: "(case matching of
               None \<Rightarrow> if idmap_has pub i \<or> b then removeMatching e i s else Inr s
             | Some d \<Rightarrow>
                 if \<not> (idmap_has pub i \<or> b) then addMatching e d s
                 else if idmap_has pub i then handleDoc_published e i d pub s
                 else if b then handleDoc_buffered e i d pub s
                 else Inl (Error ''cachedBefore implies either of publishedBefore or bufferedBefore is true.'', s))
     = Inl (x, s')"
      unfolding matching_def Let_def by simp
    show ?thesis
    proof (cases matching)
      case None
      with m show ?thesis by (simp split: if_splits)
    next
      case (Some d)
      with m show ?thesis by (auto split: if_splits)
    qed
  qed
qed

lemma handleDoc_thrown:
  assumes "handleDoc e i newDoc s = Inl (x, s')"
  shows "cacheStep e s s'"
proof (cases "published s")
  case None
  with assms have "s' = s" by (simp add: handleDoc_def)
  then show ?thesis by (simp add: cacheStep_refl)
next
  case (Some pub)
  from handleDoc_thrown_cases[OF assms Some] consider
      (same) "s' = s"
    | (rm) "removeMatching e i s = Inl (x, s')"
    | (add) d where "addMatching e d s = Inl (x, s')"
    | (pb) d where "handleDoc_published e i d pub s = Inl (x, s')"
    | (bf) d where "handleDoc_buffered e i d pub s = Inl (x, s')"
    by blast
  then show ?thesis
  proof cases
    case same then show ?thesis by (simp add: cacheStep_refl)
  next
    case rm then show ?thesis by (rule removeMatching_thrown)
  next
    case add then show ?thesis by (rule addMatching_thrown)
  next
    case pb then show ?thesis by (rule handleDoc_published_thrown)
  next
    case bf then show ?thesis by (rule handleDoc_buffered_thrown)
  qed
qed

lemma foldE_thrown:
  assumes "\<And>y s s'. f y s = Inr s' \<Longrightarrow> cacheStep e s s'"
    and "\<And>y s x s'. f y s = Inl (x, s') \<Longrightarrow> cacheStep e s s'"
  shows "foldE f ys s = Inl (x, s') \<Longrightarrow> cacheStep e s s'"
proof (induction ys arbitrary: s)
  case Nil
  then show ?case by simp
next
  case (Cons y ys)
  from Cons.prems consider "f y s = Inl (x, s')"
    | s1 where "f y s = Inr s1" "foldE f ys s1 = Inl (x, s')"
    by (auto simp: bindE_Inl_iff)
  then show ?case
  proof cases
    case 1 then show ?thesis by (rule assms(2))
  next
    case 2
    from cacheStep_trans[OF assms(1)[OF 2(1)] Cons.IH[OF 2(2)]] show ?thesis .
  qed
qed

section \<open>Steps of the entry points\<close>

lemma quietStep_okStep: "quietStep s s' \<Longrightarrow> okStep e s s'"
  by (auto simp: quietStep_def okStep_def cacheStep_def publishedWithinLimit_iff)

lemma okStep_refl: "okStep e s s"
  by (simp add: okStep_def cacheStep_refl)

lemma okStep_trans: "okStep e s s1 \<Longrightarrow> okStep e s1 s2 \<Longrightarrow> okStep e s s2"
  using cacheStep_trans by (auto simp: okStep_def)

lemma okStepI:
  assumes "cacheStep e s s'" "publishedWithinLimit s \<Longrightarrow> publishedWithinLimit s' \<and> limit s' = limit s"
  shows "okStep e s s'"
  using assms by (simp add: okStep_def)

lemma addMatching_okStep: "addMatching e d s = Inr s' \<Longrightarrow> okStep e s s'"
  by (rule okStepI) (auto dest: addMatching_cacheStep addMatching_within)

lemma removeMatching_okStep: "removeMatching e i s = Inr s' \<Longrightarrow> okStep e s s'"
  by (rule okStepI) (auto dest: removeMatching_cacheStep removeMatching_within)

lemma handleDoc_okStep: "handleDoc e i d s = Inr s' \<Longrightarrow> okStep e s s'"
  by (rule okStepI) (auto dest: handleDoc_cacheStep handleDoc_within)

lemma publishNewResults_okStep: "publishNewResults e nr nb s = Inr s' \<Longrightarrow> okStep e s s'"
  by (rule okStepI) (auto dest: publishNewResults_cacheStep publishNewResults_within)

lemma foldE_okStep:
  assumes "\<And>x s s'. f x s = Inr s' \<Longrightarrow> okStep e s s'"
  shows "foldE f xs s = Inr s' \<Longrightarrow> okStep e s s'"
proof (induction xs arbitrary: s)
  case Nil
  then show ?case by (simp add: okStep_refl)
next
  case (Cons x xs)
  from Cons.prems obtain s1 where s1: "f x s = Inr s1" "foldE f xs s1 = Inr s'"
    by (auto simp: bindE_Inr_iff)
  from okStep_trans[OF assms[OF s1(1)] Cons.IH[OF s1(2)]] show ?case .
qed

lemma quiet_simple:
  "quietStep s (pollQuery s)" "quietStep s (needToPollQuery s)"
  "quietStep s (fetchModifiedDocuments s)" "quietStep s (doneQuerying s)"
  by (auto simp: quietStep_def pollQuery_def needToPollQuery_def fetchModifiedDocuments_def
      doneQuerying_def registerPhaseChange_def)

lemma queueFetch_quiet: "queueFetch i ts s = Inr s' \<Longrightarrow> quietStep s s'"
  by (cases "needToFetch s") (auto simp: queueFetch_def quietStep_def)

lemma quietStep_trans: "quietStep s s1 \<Longrightarrow> quietStep s1 s2 \<Longrightarrow> quietStep s s2"
  by (auto simp: quietStep_def)

lemma handleOplogEntryQuerying_quiet: "handleOplogEntryQuerying e op s = Inr s' \<Longrightarrow> quietStep s s'"
  by (cases "needToFetch s") (auto simp: handleOplogEntryQuerying_def quietStep_def)

lemma handleUpdate_okStep:
  assumes "handleUpdate e i op s = Inr s'"
  shows "okStep e s s'"
proof -
  define rep where "rep \<longleftrightarrow> \<not> has_key (op_o op) ''$set'' \<and> \<not> has_key (op_o op) ''$unset''"
  define can where "can \<longleftrightarrow> \<not> rep \<and> modifierCanBeDirectlyApplied (op_o op)"
  obtain pub where pub: "published s = Some pub"
    using assms by (cases "published s") (simp_all add: handleUpdate_def Let_def)
  define direct where "direct =
         bindE (if idmap_has pub i then Inr (idmap_get pub i)
                else case unpublishedBuffer s of
                       None \<Rightarrow> Inl (TypeError, s)
                     | Some buf \<Rightarrow> Inr (idmap_get buf i))
           (\<lambda>cached.
              case cached of
                None \<Rightarrow> Inl (TypeError, s)
              | Some c \<Rightarrow>
                  (case modify e (AList.update ''_id'' i c) (op_o op) of
                     Inl x \<Rightarrow> Inl (x, s)
                   | Inr newDoc \<Rightarrow> handleDoc e i (Some (sharedProjectionFn e newDoc)) s))"
  define queue where "queue =
         bindE (queueFetch i (op_ts op) s)
           (\<lambda>s1. if phase s1 = STEADY then Inr (fetchModifiedDocuments s1) else Inr s1)"
  from assms pub obtain b where r: "(
       if rep then handleDoc e i (Some (extend [(''_id'', i)] (op_o op))) s
       else if (idmap_has pub i \<or> b) \<and> can then direct
       else if \<not> can \<or> canBecomeTrueByModifier e (op_o op) then queue
       else Inr s) = Inr s'"
    unfolding handleUpdate_def Let_def rep_def[symmetric] can_def[symmetric] direct_def queue_def
    by (simp add: bindE_Inr_iff) blast
  consider (rep) rep | (direct) "\<not> rep" "(idmap_has pub i \<or> b) \<and> can"
    | (fetch) "\<not> rep" "\<not> ((idmap_has pub i \<or> b) \<and> can)"
        "\<not> can \<or> canBecomeTrueByModifier e (op_o op)"
    | (none) "\<not> rep" "\<not> ((idmap_has pub i \<or> b) \<and> can)"
        "\<not> (\<not> can \<or> canBecomeTrueByModifier e (op_o op))"
    by blast
  then show ?thesis
  proof cases
    case rep
    with r have "handleDoc e i (Some (extend [(''_id'', i)] (op_o op))) s = Inr s'"
      by simp
    then show ?thesis by (rule handleDoc_okStep)
  next
    case direct
    with r have "direct = Inr s'" by simp
    then obtain cached where
      "(case cached of
          None \<Rightarrow> Inl (TypeError, s)
        | Some c \<Rightarrow>
            (case modify e (AList.update ''_id'' i c) (op_o op) of
               Inl x \<Rightarrow> Inl (x, s)
             | Inr newDoc \<Rightarrow> handleDoc e i (Some (sharedProjectionFn e newDoc)) s)) = Inr s'"
      unfolding direct_def bindE_Inr_iff by blast
    then obtain c where
      "(case modify e (AList.update ''_id'' i c) (op_o op) of
          Inl x \<Rightarrow> Inl (x, s)
        | Inr newDoc \<Rightarrow> handleDoc e i (Some (sharedProjectionFn e newDoc)) s) = Inr s'"
      by (cases cached) simp_all
    then obtain newDoc where
      "handleDoc e i (Some (sharedProjectionFn e newDoc)) s = Inr s'"
      by (cases "modify e (AList.update ''_id'' i c) (op_o op)") simp_all
    then show ?thesis by (rule handleDoc_okStep)
  next
    case fetch
    with r have "queue = Inr s'" by simp
    then have "\<exists>s1. queueFetch i (op_ts op) s = Inr s1
        \<and> s' = (if phase s1 = STEADY then fetchModifiedDocuments s1 else s1)"
      unfolding queue_def bindE_Inr_iff by (auto split: if_splits)
    then obtain s1 where q: "queueFetch i (op_ts op) s = Inr s1"
      and s': "s' = (if phase s1 = STEADY then fetchModifiedDocuments s1 else s1)"
      by (elim exE conjE)
    have "quietStep s1 s'" using s' quiet_simple(3)[of s1] by (auto simp: quietStep_def)
    from quietStep_okStep[OF quietStep_trans[OF queueFetch_quiet[OF q] this]] show ?thesis .
  next
    case none
    with r have "s' = s" by simp
    then show ?thesis by (simp add: okStep_refl)
  qed
qed

lemma handleOplogEntrySteadyOrFetching_okStep:
  assumes "handleOplogEntrySteadyOrFetching e op s = Inr s'"
  shows "okStep e s s'"
proof -
  let ?i = "idForOp e op"
  define body where "body =
           (if op_kind op = ''d'' then
             (case published s of
                None \<Rightarrow> Inl (TypeError, s)
              | Some pub \<Rightarrow>
                  if idmap_has pub ?i then removeMatching e ?i s
                  else if limit s = 0 then Inr s
                  else (case unpublishedBuffer s of
                          None \<Rightarrow> Inl (TypeError, s)
                        | Some buf \<Rightarrow> if idmap_has buf ?i then removeMatching e ?i s else Inr s))
           else if op_kind op = ''i'' then
             (case published s of
                None \<Rightarrow> Inl (TypeError, s)
              | Some pub \<Rightarrow>
                  if idmap_has pub ?i then
                    Inl (Error ''insert found for already-existing ID in published'', s)
                  else if (case unpublishedBuffer s of None \<Rightarrow> False | Some buf \<Rightarrow> idmap_has buf ?i)
                  then Inl (Error ''insert found for already-existing ID in buffer'', s)
                  else if documentMatches e (op_o op) then addMatching e (op_o op) s
                  else Inr s)
           else if op_kind op = ''u'' then handleUpdate e ?i op s
           else Inl (Error ''XXX SURPRISING OPERATION'', s))"
  from assms obtain busy where r: "(if busy then queueFetch ?i (op_ts op) s else body) = Inr s'"
    unfolding handleOplogEntrySteadyOrFetching_def Let_def body_def bindE_Inr_iff by blast
  show ?thesis
  proof (cases busy)
    case True
    with r have "queueFetch ?i (op_ts op) s = Inr s'" by simp
    from quietStep_okStep[OF queueFetch_quiet[OF this]] show ?thesis .
  next
    case False
    with r have b: "body = Inr s'" by simp
    have "s' = s \<or> removeMatching e ?i s = Inr s' \<or> addMatching e (op_o op) s = Inr s'
          \<or> handleUpdate e ?i op s = Inr s'"
      using b unfolding body_def by (auto split: if_splits option.splits)
    then show ?thesis
      using okStep_refl removeMatching_okStep addMatching_okStep handleUpdate_okStep by blast
  qed
qed

lemma onOplogEntry_okStep:
  assumes "onOplogEntry e n s = Inr s'"
  shows "okStep e s s'"
proof (cases "dropCollection n")
  case True
  with assms have "s' = needToPollQuery s" by (simp add: onOplogEntry_def)
  then show ?thesis using quietStep_okStep[OF quiet_simple(2)] by simp
next
  case False
  show ?thesis
  proof (cases "phase s = QUERYING")
    case True
    with assms \<open>\<not> dropCollection n\<close> have "handleOplogEntryQuerying e (n_op n) s = Inr s'"
      by (simp add: onOplogEntry_def)
    then show ?thesis using quietStep_okStep[OF handleOplogEntryQuerying_quiet] by simp
  next
    case False
    with assms \<open>\<not> dropCollection n\<close> have "handleOplogEntrySteadyOrFetching e (n_op n) s = Inr s'"
      by (simp add: onOplogEntry_def)
    then show ?thesis by (rule handleOplogEntrySteadyOrFetching_okStep)
  qed
qed

lemma pollQueryBody_okStep:
  assumes "pollQueryBody e run s = Inr s'"
  shows "okStep e s s'"
proof -
  from assms obtain nr nb s1 where p: "publishNewResults e nr nb s = Inr s1"
    and s': "s' = doneQuerying s1"
    by (auto simp: pollQueryBody_def Let_def bindE_Inr_iff)
  from okStep_trans[OF publishNewResults_okStep[OF p] quietStep_okStep[OF quiet_simple(4)]] s'
  show ?thesis by simp
qed

lemma flushTokens_append [simp]: "flushTokens (xs @ ys) = flushTokens xs @ flushTokens ys"
  by (induction xs rule: flushTokens.induct) simp_all

lemma flushTokens_cacheEvents: "list_all (cacheEvent e) evs \<Longrightarrow> flushTokens evs = []"
  by (induction evs rule: flushTokens.induct) (simp_all add: cacheEvent_def)

lemma cacheEvent_driverEvent: "cacheEvent e ev \<Longrightarrow> driverEvent e ev"
  by (cases ev) (simp_all add: cacheEvent_def driverEvent_def)

lemma cacheStep_tokens:
  assumes "cacheStep e s s'"
  shows "pendingWrites s' = pendingWrites s" "committed s' = committed s"
    "flushTokens (emitted s') = flushTokens (emitted s)"
    "deferredTokens (deferred s') = deferredTokens (deferred s)" "tokensOf s' = tokensOf s"
proof -
  from assms obtain evs where evs: "emitted s' = emitted s @ evs" "list_all (cacheEvent e) evs"
    by (auto simp: cacheStep_def)
  show 1: "pendingWrites s' = pendingWrites s" and 2: "committed s' = committed s"
    and 4: "deferredTokens (deferred s') = deferredTokens (deferred s)"
    using assms by (simp_all add: cacheStep_def pendingWrites_def)
  show 3: "flushTokens (emitted s') = flushTokens (emitted s)"
    using evs flushTokens_cacheEvents by simp
  show "tokensOf s' = tokensOf s" using 1 2 3 4 by (simp add: tokensOf_def)
qed

lemma okStep_cacheStep: "okStep e s s' \<Longrightarrow> cacheStep e s s'"
  by (simp add: okStep_def)


lemma cacheStep_stepFacts:
  assumes "cacheStep e s s'"
  shows "stepFacts e s s'"
proof -
  from assms obtain evs where evs: "emitted s' = emitted s @ evs" "list_all (cacheEvent e) evs"
    by (auto simp: cacheStep_def)
  then have "list_all (driverEvent e) evs"
    using cacheEvent_driverEvent by (auto simp: list_all_iff)
  with evs have "\<exists>evs. emitted s' = emitted s @ evs \<and> list_all (driverEvent e) evs" by blast
  moreover have "limit s' = limit s" "fetchGeneration s \<le> fetchGeneration s'"
    "writesToCommitWhenWeReachSteady s' = writesToCommitWhenWeReachSteady s"
    "stopped s' = stopped s"
    using assms by (simp_all add: cacheStep_def)
  ultimately show ?thesis
    using cacheStep_tokens[OF assms] by (simp add: stepFacts_def)
qed

lemmas okStep_stepFacts = cacheStep_stepFacts[OF okStep_cacheStep]

lemma cacheStep_then_stepFacts:
  assumes "cacheStep e s s1" "stepFacts e s1 s2"
  shows "stepFacts e s s2"
proof -
  from cacheStep_stepFacts[OF assms(1)] obtain a where
    a: "emitted s1 = emitted s @ a" "list_all (driverEvent e) a"
    by (auto simp: stepFacts_def)
  from assms(2) obtain b where b: "emitted s2 = emitted s1 @ b" "list_all (driverEvent e) b"
    by (auto simp: stepFacts_def)
  have "emitted s2 = emitted s @ (a @ b) \<and> list_all (driverEvent e) (a @ b)"
    using a b by simp
  then have ev: "\<exists>evs. emitted s2 = emitted s @ evs \<and> list_all (driverEvent e) evs" by blast
  have base: "limit s2 = limit s" "fetchGeneration s \<le> fetchGeneration s2"
    "writesToCommitWhenWeReachSteady s \<noteq> None \<or> stopped s \<longrightarrow>
       writesToCommitWhenWeReachSteady s2 \<noteq> None \<or> stopped s2"
    using cacheStep_stepFacts[OF assms(1)] assms(2) by (auto simp: stepFacts_def)
  have tok: "phase s2 \<noteq> STEADY \<and> \<not> stopped s2 \<longrightarrow>
            (\<exists>ws. pendingWrites s2 = pendingWrites s @ ws)
            \<and> committed s2 = committed s
            \<and> flushTokens (emitted s2) = flushTokens (emitted s)"
    using cacheStep_tokens(1,2,3)[OF assms(1)] assms(2) by (simp add: stepFacts_def)
  from ev base tok show ?thesis unfolding stepFacts_def by blast
qed

lemmas okStep_then_stepFacts = cacheStep_then_stepFacts[OF okStep_cacheStep]

lemma driverEvent_simps: "driverEvent e Ready" "driverEvent e (OnFlush ws)"
  by (simp_all add: driverEvent_def)

lemma stepFacts_direct:
  assumes "limit s' = limit s" "fetchGeneration s \<le> fetchGeneration s'"
    "writesToCommitWhenWeReachSteady s \<noteq> None \<or> stopped s \<longrightarrow>
       writesToCommitWhenWeReachSteady s' \<noteq> None \<or> stopped s'"
    "emitted s' = emitted s @ evs" "list_all (driverEvent e) evs"
    "phase s' = STEADY \<or> stopped s'
     \<or> ((\<exists>ws. pendingWrites s' = pendingWrites s @ ws) \<and> committed s' = committed s
         \<and> flushTokens evs = [])"
  shows "stepFacts e s s'"
proof -
  have "\<exists>evs. emitted s' = emitted s @ evs \<and> list_all (driverEvent e) evs"
    using assms(4,5) by blast
  then show ?thesis using assms(1,2,3,4,6) unfolding stepFacts_def by auto
qed

lemma beSteady_stepFacts: "stepFacts e s (beSteady s)"
  by (rule stepFacts_direct[where evs = "[OnFlush (pendingWrites s)]"])
     (simp_all add: beSteady_def registerPhaseChange_def pendingWrites_def driverEvent_simps)

lemma stop_stepFacts: "stepFacts e s (stop s)"
proof (cases "stopped s")
  case True
  then have "stop s = s" by (simp add: stop_def)
  then show ?thesis using okStep_stepFacts[OF okStep_refl] by simp
next
  case False
  show ?thesis
    by (rule stepFacts_direct[where evs = "[]"]) (use False in \<open>simp_all add: stop_def\<close>)
qed

lemma writeCaughtUp_stepFacts:
  assumes "writeCaughtUp w s = Inr s'"
  shows "stepFacts e s s'"
proof -
  consider "stopped s" | "\<not> stopped s" "phase s = STEADY" | "\<not> stopped s" "phase s \<noteq> STEADY"
    by blast
  then show ?thesis
  proof cases
    case 1
    with assms have "s' = s\<lparr>committed := committed s @ [w]\<rparr>" by (simp add: writeCaughtUp_def)
    with 1 show ?thesis by (intro stepFacts_direct[where evs = "[]"]) simp_all
  next
    case 2
    with assms have "s' = s\<lparr>emitted := emitted s @ [OnFlush [w]]\<rparr>" by (simp add: writeCaughtUp_def)
    with 2 show ?thesis
      by (intro stepFacts_direct[where evs = "[OnFlush [w]]"]) (simp_all add: driverEvent_simps)
  next
    case 3
    with assms obtain ws where "writesToCommitWhenWeReachSteady s = Some ws"
      "s' = s\<lparr>writesToCommitWhenWeReachSteady := Some (ws @ [w])\<rparr>"
      by (cases "writesToCommitWhenWeReachSteady s") (auto simp: writeCaughtUp_def)
    then show ?thesis
      by (intro stepFacts_direct[where evs = "[]"]) (simp_all add: pendingWrites_def)
  qed
qed

lemma doneQuerying_resume_cases:
  assumes "doneQuerying_resume s = Inr s'"
  shows "s' = s \<or> s' = pollQuery (s\<lparr>requeryWhenDoneThisQuery := False\<rparr>) \<or> s' = beSteady s
         \<or> s' = fetchModifiedDocuments s"
proof (cases "stopped s")
  case True
  with assms show ?thesis by (simp add: doneQuerying_resume_def)
next
  case ns: False
  show ?thesis
  proof (cases "phase s = QUERYING")
    case False
    with assms ns show ?thesis by (simp add: doneQuerying_resume_def)
  next
    case q: True
    show ?thesis
    proof (cases "requeryWhenDoneThisQuery s")
      case True
      with assms ns q show ?thesis by (simp add: doneQuerying_resume_def)
    next
      case False
      with assms ns q show ?thesis
        by (cases "needToFetch s"; cases "needToFetch s = Some []")
           (simp_all add: doneQuerying_resume_def)
    qed
  qed
qed

lemma doneQuerying_resume_stepFacts:
  assumes "doneQuerying_resume s = Inr s'"
  shows "stepFacts e s s'"
proof -
  let ?s0 = "s\<lparr>requeryWhenDoneThisQuery := False\<rparr>"
  from doneQuerying_resume_cases[OF assms] consider "s' = s" | "s' = pollQuery ?s0"
    | "s' = beSteady s" | "s' = fetchModifiedDocuments s"
    by blast
  then show ?thesis
  proof cases
    case 1 then show ?thesis using okStep_stepFacts[OF okStep_refl] by simp
  next
    case 2
    have "quietStep s ?s0" by (simp add: quietStep_def)
    from quietStep_trans[OF this quiet_simple(1)] 2
    show ?thesis using okStep_stepFacts[OF quietStep_okStep] by simp
  next
    case 3 then show ?thesis using beSteady_stepFacts by simp
  next
    case 4 then show ?thesis using okStep_stepFacts[OF quietStep_okStep[OF quiet_simple(3)]] by simp
  qed
qed

lemma fetchLoop_head_cases:
  assumes "fetchLoop_head s = Inr (s', b)"
  shows "(s' = beSteady s \<and> b = None)
       \<or> (\<exists>ntf. needToFetch s = Some ntf \<and> ntf \<noteq> [] \<and> \<not> stopped s \<and> phase s = FETCHING
            \<and> s' = s\<lparr>currentlyFetching := Some ntf,
                 fetchGeneration := fetchGeneration s + 1,
                 needToFetch := Some [],
                 fetches := fetches s @ map (\<lambda>(i, cacheKey). (i, cacheKey, fetchGeneration s + 1)) ntf\<rparr>
            \<and> b = Some \<lparr>thisGeneration = fetchGeneration s + 1, waiting = int (length ntf),
                         anyError = None, futReturned = False\<rparr>)"
proof (cases "stopped s")
  case True
  with assms show ?thesis by (simp add: fetchLoop_head_def)
next
  case ns: False
  show ?thesis
  proof (cases "needToFetch s")
    case None
    with assms ns show ?thesis by (simp add: fetchLoop_head_def)
  next
    case (Some ntf)
    show ?thesis
    proof (cases "ntf = []")
      case True
      with assms ns Some show ?thesis by (simp add: fetchLoop_head_def)
    next
      case ne: False
      show ?thesis
      proof (cases "phase s = FETCHING")
        case False
        with assms ns Some ne show ?thesis by (simp add: fetchLoop_head_def)
      next
        case True
        with assms ns Some ne show ?thesis by (simp add: fetchLoop_head_def Let_def)
      qed
    qed
  qed
qed

lemma fetchLoop_head_stepFacts:
  assumes "fetchLoop_head s = Inr (s', b)"
  shows "stepFacts e s s'"
proof -
  from fetchLoop_head_cases[OF assms] consider "s' = beSteady s"
    | ntf where "needToFetch s = Some ntf"
        "s' = s\<lparr>currentlyFetching := Some ntf,
                 fetchGeneration := fetchGeneration s + 1,
                 needToFetch := Some [],
                 fetches := fetches s @ map (\<lambda>(i, cacheKey). (i, cacheKey, fetchGeneration s + 1)) ntf\<rparr>"
    by blast
  then show ?thesis
  proof cases
    case 1 then show ?thesis using beSteady_stepFacts by simp
  next
    case 2
    then show ?thesis
      by (intro stepFacts_direct[where evs = "[]"]) (simp_all add: pendingWrites_def)
  qed
qed

lemma fetchLoop_afterWait_cases:
  assumes "fetchLoop_afterWait (s, b) = Inr (s', b')"
  shows "(s' = s \<and> phase s = QUERYING)
         \<or> fetchLoop_head (s\<lparr>currentlyFetching := None\<rparr>) = Inr (s', b')"
proof (cases "anyError b")
  case (Some x)
  with assms show ?thesis by (simp add: fetchLoop_afterWait_def)
next
  case None
  with assms show ?thesis
    by (cases "phase s = QUERYING") (simp_all add: fetchLoop_afterWait_def)
qed

lemma fetchLoop_afterWait_stepFacts:
  assumes "fetchLoop_afterWait (s, b) = Inr (s', b')"
  shows "stepFacts e s s'"
proof -
  let ?s0 = "s\<lparr>currentlyFetching := None\<rparr>"
  from fetchLoop_afterWait_cases[OF assms] consider "s' = s" | "fetchLoop_head ?s0 = Inr (s', b')"
    by blast
  then show ?thesis
  proof cases
    case 1 then show ?thesis using okStep_stepFacts[OF okStep_refl] by simp
  next
    case 2
    have "quietStep s ?s0" by (simp add: quietStep_def)
    from okStep_then_stepFacts[OF quietStep_okStep[OF this] fetchLoop_head_stepFacts[OF 2]]
    show ?thesis .
  qed
qed

lemma fetchCallback_state:
  assumes "fetchCallback e i err d (s, b) = Inr (s', b')"
  shows "s' = s \<or> (err = None \<and> \<not> stopped s \<and> phase s = FETCHING
                    \<and> fetchGeneration s = thisGeneration b \<and> handleDoc e i d s = Inr s')"
proof (cases err)
  case (Some x)
  with assms show ?thesis by (simp add: fetchCallback_def Let_def)
next
  case None
  show ?thesis
  proof (cases "\<not> stopped s \<and> phase s = FETCHING \<and> fetchGeneration s = thisGeneration b")
    case True
    with assms None show ?thesis
      by (auto simp: fetchCallback_def Let_def bindE_Inr_iff)
  next
    case False
    with assms None have "s' = s" by (auto simp: fetchCallback_def Let_def)
    then show ?thesis by simp
  qed
qed

lemma fetchCallback_stepFacts:
  assumes "fetchCallback e i err d (s, b) = Inr (s', b')"
  shows "stepFacts e s s'"
  using fetchCallback_state[OF assms] okStep_stepFacts[OF okStep_refl, of e s]
    okStep_stepFacts[OF handleDoc_okStep, of e i d s s'] by auto

lemma runInitialQuery_stepFacts:
  assumes "runInitialQuery e run s = Inr s'"
  shows "stepFacts e s s'"
proof -
  have ns: "\<not> stopped s" using assms by (auto simp: runInitialQuery_def split: if_splits)
  let ?docs = "run \<lparr>cur_limit = 2 * limit s, cur_fieldsShared = True, cur_transform = False\<rparr>"
  from assms runInitialQuery_spec[OF ns, of e run]
  obtain s1 where f: "foldE (addMatching e) ?docs s = Inr s1"
    and s': "s' = doneQuerying (s1\<lparr>safeAppendToBuffer := (length ?docs < 2 * limit s),
                                     emitted := emitted s1 @ [Ready]\<rparr>)"
    by (auto simp: initialQuery_spec_def Let_def bindE_Inr_iff)
  have 1: "okStep e s s1" by (rule foldE_okStep[OF _ f]) (rule addMatching_okStep)
  let ?s2 = "s1\<lparr>safeAppendToBuffer := (length ?docs < 2 * limit s), emitted := emitted s1 @ [Ready]\<rparr>"
  have 2: "stepFacts e s1 s'"
    unfolding s'
    by (rule stepFacts_direct[where evs = "[Ready]"])
       (simp_all add: doneQuerying_def driverEvent_simps pendingWrites_def)
  from okStep_then_stepFacts[OF 1 2] show ?thesis .
qed

subsection \<open>Entry points that throw\<close>

lemma quietStep_cacheStep: "quietStep s s' \<Longrightarrow> cacheStep e s s'"
  using okStep_cacheStep[OF quietStep_okStep] .

lemma queueFetch_thrown: "queueFetch i ts s = Inl (x, s') \<Longrightarrow> s' = s"
  by (cases "needToFetch s") (auto simp: queueFetch_def)

lemma handleOplogEntryQuerying_thrown: "handleOplogEntryQuerying e op s = Inl (x, s') \<Longrightarrow> s' = s"
  by (cases "needToFetch s") (auto simp: handleOplogEntryQuerying_def)

lemma publishNewResults_thrown:
  assumes "publishNewResults e newResults newBuffer s = Inl (x, s')"
  shows "cacheStep e s s'"
proof -
  define first where "first =
          (if limit s \<noteq> 0 then
              (case unpublishedBuffer s of
                 None \<Rightarrow> Inl (TypeError, s)
               | Some buf \<Rightarrow> Inr (s\<lparr>unpublishedBuffer := Some []\<rparr>))
            else Inr s)"
  define last where "last = (\<lambda>s3. case published s3 of
                                None \<Rightarrow> Inl (TypeError, s3)
                              | Some pub3 \<Rightarrow>
                                  if idmap_size pub3 \<noteq> idmap_size newResults then
                                    Inl (Error ''failed to copy newResults into _published!'', s3)
                                  else if list_ex (\<lambda>(i, d). \<not> idmap_has newResults i) pub3 then
                                    Inl (Error ''_published has a doc that newResults doesn't'', s3)
                                  else
                                    bindE (foldE (\<lambda>(i, d). addBuffered e i d) newBuffer s3)
                                      (\<lambda>s4. Inr (s4\<lparr>safeAppendToBuffer :=
                                                        (idmap_size newBuffer < limit s4)\<rparr>)))"
  define rest where "rest = (\<lambda>s1. case published s1 of
                None \<Rightarrow> Inl (TypeError, s1)
              | Some pub \<Rightarrow>
                  let idsToRemove = map fst (filter (\<lambda>(i, d). \<not> idmap_has newResults i) pub) in
                  bindE (foldE (removePublished e) idsToRemove s1)
                    (\<lambda>s2. bindE (foldE (\<lambda>(i, d). handleDoc e i (Some d)) newResults s2) last))"
  have p: "publishNewResults e newResults newBuffer s = bindE first rest"
    unfolding publishNewResults_def first_def rest_def last_def ..
  have rm: "cacheStep e t t'" if "foldE (removePublished e) ids t = Inl (x, t')" for ids t t'
    by (rule foldE_thrown[OF _ _ that]) (auto dest: removePublished_cacheStep removePublished_thrown)
  have hd: "cacheStep e t t'"
    if "foldE (\<lambda>(i, d). handleDoc e i (Some d)) newResults t = Inl (x, t')" for t t'
    by (rule foldE_thrown[OF _ _ that]) (auto dest: handleDoc_cacheStep handleDoc_thrown)
  have ab: "cacheStep e t t'"
    if "foldE (\<lambda>(i, d). addBuffered e i d) newBuffer t = Inl (x, t')" for t t'
    by (rule foldE_thrown[OF _ _ that])
       (auto dest: addBuffered_cacheStep addBuffered_thrown simp: cacheStep_refl)
  have lastT: "cacheStep e s3 s'" if "last s3 = Inl (x, s')" for s3
  proof (cases "published s3")
    case None
    with that show ?thesis by (simp add: last_def cacheStep_refl)
  next
    case (Some pub3)
    with that have "s' = s3 \<or> foldE (\<lambda>(i, d). addBuffered e i d) newBuffer s3 = Inl (x, s')"
      by (auto simp: last_def bindE_Inl_iff split: if_splits)
    then show ?thesis using ab[of s3 s'] by (auto simp: cacheStep_refl)
  qed
  have restT: "cacheStep e s1 s'" if "rest s1 = Inl (x, s')" for s1
  proof (cases "published s1")
    case None
    with that show ?thesis by (simp add: rest_def cacheStep_refl)
  next
    case (Some pub)
    let ?ids = "map fst (filter (\<lambda>(i, d). \<not> idmap_has newResults i) pub)"
    from that Some have
      "bindE (foldE (removePublished e) ?ids s1)
         (\<lambda>s2. bindE (foldE (\<lambda>(i, d). handleDoc e i (Some d)) newResults s2) last) = Inl (x, s')"
      by (simp add: rest_def Let_def)
    then consider "foldE (removePublished e) ?ids s1 = Inl (x, s')"
      | s2 where "foldE (removePublished e) ?ids s1 = Inr s2"
          "foldE (\<lambda>(i, d). handleDoc e i (Some d)) newResults s2 = Inl (x, s')"
      | s2 s3 where "foldE (removePublished e) ?ids s1 = Inr s2"
          "foldE (\<lambda>(i, d). handleDoc e i (Some d)) newResults s2 = Inr s3" "last s3 = Inl (x, s')"
      unfolding bindE_Inl_iff by blast
    then show ?thesis
    proof cases
      case 1 then show ?thesis by (rule rm)
    next
      case 2
      have "cacheStep e s1 s2"
        by (rule foldE_cacheStep[OF _ 2(1)]) (rule removePublished_cacheStep)
      from cacheStep_trans[OF this hd[OF 2(2)]] show ?thesis .
    next
      case 3
      have a: "cacheStep e s1 s2"
        by (rule foldE_cacheStep[OF _ 3(1)]) (rule removePublished_cacheStep)
      have b: "cacheStep e s2 s3"
        by (rule foldE_cacheStep[OF _ 3(2)]) (auto dest: handleDoc_cacheStep)
      from cacheStep_trans[OF a cacheStep_trans[OF b lastT[OF 3(3)]]] show ?thesis .
    qed
  qed
  from assms consider "first = Inl (x, s')" | s1 where "first = Inr s1" "rest s1 = Inl (x, s')"
    unfolding p bindE_Inl_iff by blast
  then show ?thesis
  proof cases
    case 1
    then have "s' = s" by (cases "unpublishedBuffer s") (auto simp: first_def split: if_splits)
    then show ?thesis by (simp add: cacheStep_refl)
  next
    case 2
    from 2(1) have "s1 = s \<or> s1 = s\<lparr>unpublishedBuffer := Some []\<rparr>"
      by (cases "unpublishedBuffer s") (auto simp: first_def split: if_splits)
    then have "cacheStep e s s1" by (auto simp: cacheStep_def)
    from cacheStep_trans[OF this restT[OF 2(2)]] show ?thesis .
  qed
qed

lemma handleUpdate_thrown:
  assumes "handleUpdate e i op s = Inl (x, s')"
  shows "cacheStep e s s'"
proof (cases "published s")
  case None
  with assms have "s' = s" by (simp add: handleUpdate_def Let_def)
  then show ?thesis by (simp add: cacheStep_refl)
next
  case (Some pub)
  define rep where "rep \<longleftrightarrow> \<not> has_key (op_o op) ''$set'' \<and> \<not> has_key (op_o op) ''$unset''"
  define can where "can \<longleftrightarrow> \<not> rep \<and> modifierCanBeDirectlyApplied (op_o op)"
  define before where "before =
         (if limit s = 0 then Inr False
          else case unpublishedBuffer s of
                 None \<Rightarrow> Inl (TypeError, s)
               | Some buf \<Rightarrow> Inr (idmap_has buf i))"
  define direct where "direct =
         bindE (if idmap_has pub i then Inr (idmap_get pub i)
                else case unpublishedBuffer s of
                       None \<Rightarrow> Inl (TypeError, s)
                     | Some buf \<Rightarrow> Inr (idmap_get buf i))
           (\<lambda>cached.
              case cached of
                None \<Rightarrow> Inl (TypeError, s)
              | Some c \<Rightarrow>
                  (case modify e (AList.update ''_id'' i c) (op_o op) of
                     Inl x \<Rightarrow> Inl (x, s)
                   | Inr newDoc \<Rightarrow> handleDoc e i (Some (sharedProjectionFn e newDoc)) s))"
  define queue where "queue =
         bindE (queueFetch i (op_ts op) s)
           (\<lambda>s1. if phase s1 = STEADY then Inr (fetchModifiedDocuments s1) else Inr s1)"
  from assms Some have "bindE before (\<lambda>b.
       if rep then handleDoc e i (Some (extend [(''_id'', i)] (op_o op))) s
       else if (idmap_has pub i \<or> b) \<and> can then direct
       else if \<not> can \<or> canBecomeTrueByModifier e (op_o op) then queue
       else Inr s) = Inl (x, s')"
    unfolding handleUpdate_def Let_def rep_def[symmetric] can_def[symmetric] direct_def queue_def
      before_def
    by simp
  then consider "before = Inl (x, s')"
    | (rep) "handleDoc e i (Some (extend [(''_id'', i)] (op_o op))) s = Inl (x, s')"
    | (direct) "direct = Inl (x, s')"
    | (fetch) "queue = Inl (x, s')"
    unfolding bindE_Inl_iff by (auto split: if_splits)
  then show ?thesis
  proof cases
    case 1
    then have "s' = s" by (cases "unpublishedBuffer s") (auto simp: before_def split: if_splits)
    then show ?thesis by (simp add: cacheStep_refl)
  next
    case rep
    then show ?thesis by (rule handleDoc_thrown)
  next
    case direct
    then consider "(if idmap_has pub i then Inr (idmap_get pub i)
                else case unpublishedBuffer s of
                       None \<Rightarrow> Inl (TypeError, s)
                     | Some buf \<Rightarrow> Inr (idmap_get buf i)) = Inl (x, s')"
      | cached where "(case cached of
                None \<Rightarrow> Inl (TypeError, s)
              | Some c \<Rightarrow>
                  (case modify e (AList.update ''_id'' i c) (op_o op) of
                     Inl x \<Rightarrow> Inl (x, s)
                   | Inr newDoc \<Rightarrow> handleDoc e i (Some (sharedProjectionFn e newDoc)) s))
              = Inl (x, s')"
      unfolding direct_def bindE_Inl_iff by blast
    then show ?thesis
    proof cases
      case 1
      then have "s' = s" by (cases "unpublishedBuffer s") (auto split: if_splits)
      then show ?thesis by (simp add: cacheStep_refl)
    next
      case 2
      show ?thesis
      proof (cases cached)
        case None
        with 2 show ?thesis by (simp add: cacheStep_refl)
      next
        case (Some c)
        show ?thesis
        proof (cases "modify e (AList.update ''_id'' i c) (op_o op)")
          case (Inl y)
          with 2 Some show ?thesis by (simp add: cacheStep_refl)
        next
          case (Inr newDoc)
          with 2 Some have "handleDoc e i (Some (sharedProjectionFn e newDoc)) s = Inl (x, s')"
            by simp
          then show ?thesis by (rule handleDoc_thrown)
        qed
      qed
    qed
  next
    case fetch
    then have "queueFetch i (op_ts op) s = Inl (x, s')"
      unfolding queue_def bindE_Inl_iff by (auto split: if_splits)
    from queueFetch_thrown[OF this] show ?thesis by (simp add: cacheStep_refl)
  qed
qed

lemma handleOplogEntrySteadyOrFetching_thrown:
  assumes "handleOplogEntrySteadyOrFetching e op s = Inl (x, s')"
  shows "cacheStep e s s'"
proof -
  let ?i = "idForOp e op"
  define busy where "busy =
          (if phase s = FETCHING then
               (case currentlyFetching s of
                  Some cf \<Rightarrow>
                    if idmap_has cf ?i then Inr True
                    else (case needToFetch s of
                            None \<Rightarrow> Inl (TypeError, s)
                          | Some ntf \<Rightarrow> Inr (idmap_has ntf ?i))
                | None \<Rightarrow>
                    (case needToFetch s of
                       None \<Rightarrow> Inl (TypeError, s)
                     | Some ntf \<Rightarrow> Inr (idmap_has ntf ?i)))
             else Inr False)"
  define body where "body =
           (if op_kind op = ''d'' then
             (case published s of
                None \<Rightarrow> Inl (TypeError, s)
              | Some pub \<Rightarrow>
                  if idmap_has pub ?i then removeMatching e ?i s
                  else if limit s = 0 then Inr s
                  else (case unpublishedBuffer s of
                          None \<Rightarrow> Inl (TypeError, s)
                        | Some buf \<Rightarrow> if idmap_has buf ?i then removeMatching e ?i s else Inr s))
           else if op_kind op = ''i'' then
             (case published s of
                None \<Rightarrow> Inl (TypeError, s)
              | Some pub \<Rightarrow>
                  if idmap_has pub ?i then
                    Inl (Error ''insert found for already-existing ID in published'', s)
                  else if (case unpublishedBuffer s of None \<Rightarrow> False | Some buf \<Rightarrow> idmap_has buf ?i)
                  then Inl (Error ''insert found for already-existing ID in buffer'', s)
                  else if documentMatches e (op_o op) then addMatching e (op_o op) s
                  else Inr s)
           else if op_kind op = ''u'' then handleUpdate e ?i op s
           else Inl (Error ''XXX SURPRISING OPERATION'', s))"
  from assms have "bindE busy (\<lambda>b. if b then queueFetch ?i (op_ts op) s else body) = Inl (x, s')"
    unfolding handleOplogEntrySteadyOrFetching_def Let_def body_def busy_def .
  then consider "busy = Inl (x, s')" | "queueFetch ?i (op_ts op) s = Inl (x, s')"
    | "body = Inl (x, s')"
    unfolding bindE_Inl_iff by (auto split: if_splits)
  then show ?thesis
  proof cases
    case 1
    then have "s' = s"
      by (cases "currentlyFetching s"; cases "needToFetch s") (auto simp: busy_def split: if_splits)
    then show ?thesis by (simp add: cacheStep_refl)
  next
    case 2
    from queueFetch_thrown[OF this] show ?thesis by (simp add: cacheStep_refl)
  next
    case 3
    have "s' = s \<or> removeMatching e ?i s = Inl (x, s') \<or> addMatching e (op_o op) s = Inl (x, s')
          \<or> handleUpdate e ?i op s = Inl (x, s')"
      using 3 unfolding body_def by (auto split: if_splits option.splits)
    then show ?thesis
      using cacheStep_refl removeMatching_thrown addMatching_thrown handleUpdate_thrown by blast
  qed
qed

lemma onOplogEntry_thrown:
  assumes "onOplogEntry e n s = Inl (x, s')"
  shows "cacheStep e s s'"
proof (cases "dropCollection n")
  case True
  with assms show ?thesis by (simp add: onOplogEntry_def)
next
  case False
  show ?thesis
  proof (cases "phase s = QUERYING")
    case True
    with assms \<open>\<not> dropCollection n\<close> have "handleOplogEntryQuerying e (n_op n) s = Inl (x, s')"
      by (simp add: onOplogEntry_def)
    from handleOplogEntryQuerying_thrown[OF this] show ?thesis by (simp add: cacheStep_refl)
  next
    case False
    with assms \<open>\<not> dropCollection n\<close>
    have "handleOplogEntrySteadyOrFetching e (n_op n) s = Inl (x, s')"
      by (simp add: onOplogEntry_def)
    then show ?thesis by (rule handleOplogEntrySteadyOrFetching_thrown)
  qed
qed

lemma pollQueryBody_thrown:
  assumes "pollQueryBody e run s = Inl (x, s')"
  shows "cacheStep e s s'"
proof -
  from assms obtain nr nb where "publishNewResults e nr nb s = Inl (x, s')"
    by (auto simp: pollQueryBody_def Let_def bindE_Inl_iff)
  then show ?thesis by (rule publishNewResults_thrown)
qed

lemma runInitialQuery_thrown:
  assumes "runInitialQuery e run s = Inl (x, s')"
  shows "cacheStep e s s'"
proof (cases "stopped s")
  case True
  with assms show ?thesis by (simp add: runInitialQuery_def cacheStep_refl)
next
  case False
  let ?docs = "run (cursorForQuery (limit s * 2))"
  from assms False consider "foldE (addMatching e) ?docs s = Inl (x, s')"
    | s1 where "foldE (addMatching e) ?docs s = Inr s1"
        "s' = s1\<lparr>safeAppendToBuffer := (length ?docs < limit s1 * 2)\<rparr>"
    by (auto simp: runInitialQuery_def Let_def bindE_Inl_iff split: if_splits)
  then show ?thesis
  proof cases
    case 1
    show ?thesis
      by (rule foldE_thrown[OF _ _ 1]) (auto dest: addMatching_cacheStep addMatching_thrown)
  next
    case 2
    have "cacheStep e s s1" by (rule foldE_cacheStep[OF _ 2(1)]) (rule addMatching_cacheStep)
    moreover have "cacheStep e s1 s'" using 2(2) by (simp add: cacheStep_def)
    ultimately show ?thesis by (rule cacheStep_trans)
  qed
qed

lemma doneQuerying_resume_thrown: "doneQuerying_resume s = Inl (x, s') \<Longrightarrow> s' = s"
  by (cases "needToFetch s") (auto simp: doneQuerying_resume_def split: if_splits)

lemma fetchLoop_head_thrown: "fetchLoop_head s = Inl (x, s') \<Longrightarrow> s' = s"
  by (cases "needToFetch s") (auto simp: fetchLoop_head_def Let_def split: if_splits)

lemma fetchLoop_afterWait_thrown:
  assumes "fetchLoop_afterWait (s, b) = Inl (x, s')"
  shows "s' = s \<or> s' = s\<lparr>currentlyFetching := None\<rparr>"
proof (cases "anyError b")
  case (Some y)
  with assms show ?thesis by (simp add: fetchLoop_afterWait_def)
next
  case None
  with assms have "fetchLoop_head (s\<lparr>currentlyFetching := None\<rparr>) = Inl (x, s')"
    by (cases "phase s = QUERYING") (simp_all add: fetchLoop_afterWait_def)
  from fetchLoop_head_thrown[OF this] show ?thesis by simp
qed

lemma fetchCallback_thrown:
  assumes "fetchCallback e i err d (s, b) = Inl (x, s')"
  shows "err = None \<and> \<not> stopped s \<and> phase s = FETCHING \<and> fetchGeneration s = thisGeneration b
         \<and> handleDoc e i d s = Inl (x, s')"
proof (cases err)
  case (Some y)
  with assms show ?thesis by (simp add: fetchCallback_def Let_def)
next
  case None
  with assms show ?thesis
    by (auto simp: fetchCallback_def Let_def bindE_Inl_iff split: if_splits)
qed

lemma writeCaughtUp_thrown:
  "writeCaughtUp w s = Inl (x, s') \<Longrightarrow>
     s' = s \<and> \<not> stopped s \<and> writesToCommitWhenWeReachSteady s = None"
  by (cases "writesToCommitWhenWeReachSteady s") (auto simp: writeCaughtUp_def split: if_splits)

subsection \<open>Every step of a driver\<close>

lemma pollQueryBody_stepFacts: "pollQueryBody e run s = Inr s' \<Longrightarrow> stepFacts e s s'"
  by (rule okStep_stepFacts) (rule pollQueryBody_okStep)

lemma takeTask_stepFacts: "stepFacts e (takeTask t s) s' \<Longrightarrow> stepFacts e s s'"
  by (auto simp: stepFacts_def takeTask_def pendingWrites_def publishedWithinLimit_iff)

lemma listenCallback_stepFacts: "stepFacts e s (listenCallback fence s)"
  by (cases fence)
     (simp_all add: listenCallback_def stepFacts_def pendingWrites_def publishedWithinLimit_iff)

lemma driver_step_stepFacts: "driver_step e vs s s' \<Longrightarrow> stepFacts e s s'"
proof (induction rule: driver_step.induct)
  case (oplogEntry s n s')
  then show ?case using okStep_stepFacts[OF onOplogEntry_okStep] by simp
next
  case (listened s fence)
  show ?case by (rule listenCallback_stepFacts)
next
  case (written w s s')
  then show ?case using takeTask_stepFacts[OF writeCaughtUp_stepFacts] by simp
next
  case (initialQuery s run s')
  then show ?case using takeTask_stepFacts[OF runInitialQuery_stepFacts] by simp
next
  case (polled s run s')
  then show ?case using takeTask_stepFacts[OF pollQueryBody_stepFacts] by simp
next
  case (resumed s s')
  then show ?case using takeTask_stepFacts[OF doneQuerying_resume_stepFacts] by simp
next
  case (loopHead s s' b)
  then show ?case using takeTask_stepFacts[OF fetchLoop_head_stepFacts] by simp
next
  case (fetched i cacheKey b s err d s' b')
  then show ?case using fetchCallback_stepFacts by simp
next
  case (afterWait s b s' b')
  then show ?case using fetchLoop_afterWait_stepFacts by simp
next
  case (stopping s)
  show ?case by (rule stop_stepFacts)
next
  case (oplogEntryThrew s n x s')
  then show ?case using cacheStep_stepFacts[OF onOplogEntry_thrown] by simp
next
  case (writtenThrew w s x s')
  from writeCaughtUp_thrown[OF writtenThrew(2)] show ?case
    using takeTask_stepFacts[OF cacheStep_stepFacts[OF cacheStep_refl]] by simp
next
  case (initialQueryThrew s run x s')
  then show ?case using takeTask_stepFacts[OF cacheStep_stepFacts[OF runInitialQuery_thrown]] by simp
next
  case (polledThrew s run x s')
  then show ?case using takeTask_stepFacts[OF cacheStep_stepFacts[OF pollQueryBody_thrown]] by simp
next
  case (resumedThrew s x s')
  from doneQuerying_resume_thrown[OF resumedThrew(2)] show ?case
    using takeTask_stepFacts[OF cacheStep_stepFacts[OF cacheStep_refl]] by simp
next
  case (loopHeadThrew s x s')
  from fetchLoop_head_thrown[OF loopHeadThrew(2)] show ?case
    using takeTask_stepFacts[OF cacheStep_stepFacts[OF cacheStep_refl]] by simp
next
  case (fetchedThrew i cacheKey b s err d x s')
  from fetchCallback_thrown[OF fetchedThrew(2)] show ?case
    using cacheStep_stepFacts[OF handleDoc_thrown] by blast
next
  case (afterWaitThrew s b x s')
  have "cacheStep e s (s\<lparr>currentlyFetching := None\<rparr>)" by (simp add: cacheStep_def)
  with fetchLoop_afterWait_thrown[OF afterWaitThrew(1)] show ?case
    using cacheStep_stepFacts[OF cacheStep_refl, of e s] cacheStep_stepFacts[of e s s'] by auto
qed

text \<open>What holds from the start of a run to its end.\<close>

lemma driver_run_facts:
  "driver_run e ws s s' \<Longrightarrow>
     limit s' = limit s \<and> fetchGeneration s \<le> fetchGeneration s'
     \<and> (writesToCommitWhenWeReachSteady s \<noteq> None \<or> stopped s \<longrightarrow>
           writesToCommitWhenWeReachSteady s' \<noteq> None \<or> stopped s')
     \<and> (\<exists>evs. emitted s' = emitted s @ evs \<and> list_all (driverEvent e) evs)"
proof (induction rule: driver_run.induct)
  case (start s)
  show ?case by simp
next
  case (more ws s s1 vs s2)
  from more.IH obtain a where a: "emitted s1 = emitted s @ a" "list_all (driverEvent e) a"
    by blast
  from driver_step_stepFacts[OF more.hyps(2)] obtain b where
    b: "emitted s2 = emitted s1 @ b" "list_all (driverEvent e) b"
    and f: "limit s2 = limit s1" "fetchGeneration s1 \<le> fetchGeneration s2"
      "writesToCommitWhenWeReachSteady s1 \<noteq> None \<or> stopped s1 \<longrightarrow>
         writesToCommitWhenWeReachSteady s2 \<noteq> None \<or> stopped s2"
    by (auto simp: stepFacts_def)
  have "emitted s2 = emitted s @ (a @ b) \<and> list_all (driverEvent e) (a @ b)" using a b by simp
  then have "\<exists>evs. emitted s2 = emitted s @ evs \<and> list_all (driverEvent e) evs" by blast
  with more.IH f show ?case by auto
qed

subsection \<open>Where the write tokens are\<close>



















section \<open>The example run\<close>

lemmas ex_defs = exListened_def exPending_def exQueried_def exSteady_def exQueued_def
  exFetching_def exBatch_def exPolling_def exListenedAgain_def exPendingAgain_def exStopped_def
  dropped_def updated_def initialState_def

lemma driver_run_append:
  "driver_run e vs s1 s2 \<Longrightarrow> driver_run e ws s s1 \<Longrightarrow> driver_run e (ws @ vs) s s2"
proof (induction rule: driver_run.induct)
  case (start s1)
  then show ?case by simp
next
  case (more us s1 t1 vs t2)
  from driver_run.more[OF more.IH[OF more.prems] more.hyps(2)] show ?case by simp
qed

lemma driver_run_step:
  assumes "driver_step e vs s s'"
  shows "driver_run e vs s s'"
  using driver_run.more[OF driver_run.start assms] by simp

lemma ex_listened: "driver_step sortedByN [7] (initialState 1) exListened"
proof -
  have "listenCallback (Some 7) (initialState 1) = exListened"
    by (simp add: listenCallback_def ex_defs)
  moreover have "\<not> handlesStopped (initialState 1)" by (simp add: initialState_def)
  ultimately show ?thesis
    using driver_step.listened[of "initialState 1" sortedByN "Some 7"] by simp
qed

lemma ex_pending: "driver_step sortedByN [] exListened exPending"
proof (rule driver_step.written)
  show "WriteCaughtUp 7 \<in> set (deferred exListened)" by (simp add: ex_defs)
  show "writeCaughtUp 7 (takeTask (WriteCaughtUp 7) exListened) = Inr exPending"
    by (simp add: writeCaughtUp_def takeTask_def ex_defs)
qed

lemma ex_queried: "driver_step sortedByN [] exPending exQueried"
proof (rule driver_step.initialQuery)
  show "RunInitialQuery \<in> set (deferred exPending)" by (simp add: ex_defs)
  have d: "fourDocs (cursorForQuery (limit (takeTask RunInitialQuery exPending) * 2))
             = [docN 1 10, docN 2 20]"
    by (simp add: fourDocs_def cursorForQuery_def takeTask_def ex_defs)
  show "runInitialQuery sortedByN fourDocs (takeTask RunInitialQuery exPending) = Inr exQueried"
    unfolding runInitialQuery_def Let_def d
    by (simp add: takeTask_def ex_defs Let_def addMatching_def addPublished_def addBuffered_def
        doneQuerying_def idmap_defs example_defs maxElementId_def)
qed

lemma ex_steady: "driver_step sortedByN [] exQueried exSteady"
proof (rule driver_step.resumed)
  show "DoneQueryingResume \<in> set (deferred exQueried)" by (simp add: ex_defs)
  show "doneQuerying_resume (takeTask DoneQueryingResume exQueried) = Inr exSteady"
    by (simp add: doneQuerying_resume_def beSteady_def registerPhaseChange_def takeTask_def
        ex_defs)
qed

lemma ex_queued: "driver_step sortedByN [] exSteady exQueued"
proof (rule driver_step.oplogEntry)
  show "\<not> handlesStopped exSteady" by (simp add: ex_defs)
  show "onOplogEntry sortedByN updated exSteady = Inr exQueued"
    by (simp add: onOplogEntry_def handleOplogEntrySteadyOrFetching_def handleUpdate_def
        queueFetch_def fetchModifiedDocuments_def registerPhaseChange_def
        modifierCanBeDirectlyApplied_def has_key_def updateOp_def Let_def ex_defs idmap_defs
        example_defs)
qed

lemma ex_head: "fetchLoop_head (takeTask FetchLoop exQueued) = Inr (exFetching, Some exBatch)"
  by (simp add: fetchLoop_head_def takeTask_def Let_def ex_defs)

lemma ex_fetching: "driver_step sortedByN [] exQueued exFetching"
proof (rule driver_step.loopHead)
  show "FetchLoop \<in> set (deferred exQueued)" by (simp add: ex_defs)
  show "fetchLoop_head (takeTask FetchLoop exQueued) = Inr (exFetching, Some exBatch)"
    by (rule ex_head)
qed

lemma ex_polling: "driver_step sortedByN [] exFetching exPolling"
proof (rule driver_step.oplogEntry)
  show "\<not> handlesStopped exFetching" by (simp add: ex_defs)
  show "onOplogEntry sortedByN dropped exFetching = Inr exPolling"
    by (simp add: onOplogEntry_def needToPollQuery_def pollQuery_def registerPhaseChange_def
        ex_defs)
qed

lemma ex_late:
  "fetchCallback sortedByN (VNum 5) None (Some (docN 5 5)) (exPolling, exBatch)
     = Inr (exPolling, exBatch\<lparr>waiting := 0, futReturned := True\<rparr>)"
  by (simp add: fetchCallback_def Let_def ex_defs)

lemma ex_fetched: "driver_step sortedByN [] exPolling exPolling"
proof (rule driver_step.fetched)
  show "(VNum 5, ''ts'', thisGeneration exBatch) \<in> set (fetches exPolling)"
    by (simp add: ex_defs)
  show "fetchCallback sortedByN (VNum 5) None (Some (docN 5 5)) (exPolling, exBatch)
     = Inr (exPolling, exBatch\<lparr>waiting := 0, futReturned := True\<rparr>)"
    by (rule ex_late)
qed

lemma ex_listenedAgain: "driver_step sortedByN [8] exPolling exListenedAgain"
proof -
  have "listenCallback (Some 8) exPolling = exListenedAgain"
    by (simp add: listenCallback_def ex_defs)
  moreover have "\<not> handlesStopped exPolling" by (simp add: ex_defs)
  ultimately show ?thesis
    using driver_step.listened[of exPolling sortedByN "Some 8"] by simp
qed

lemma ex_pendingAgain: "driver_step sortedByN [] exListenedAgain exPendingAgain"
proof (rule driver_step.written)
  show "WriteCaughtUp 8 \<in> set (deferred exListenedAgain)" by (simp add: ex_defs)
  show "writeCaughtUp 8 (takeTask (WriteCaughtUp 8) exListenedAgain) = Inr exPendingAgain"
    by (simp add: writeCaughtUp_def takeTask_def ex_defs)
qed

lemma ex_stopped: "driver_step sortedByN [] exPendingAgain exStopped"
proof -
  have "stop exPendingAgain = exStopped" by (simp add: stop_def ex_defs)
  then show ?thesis using driver_step.stopping[of sortedByN exPendingAgain] by simp
qed

lemma ex_run_fetching: "driver_run sortedByN [7] (initialState 1) exFetching"
  using driver_run.more[OF driver_run.more[OF driver_run.more[OF driver_run.more[OF
          driver_run.more[OF driver_run_step[OF ex_listened] ex_pending] ex_queried] ex_steady]
          ex_queued] ex_fetching]
  by simp

lemma ex_run_polling: "driver_run sortedByN [] exFetching exPolling"
  using driver_run.more[OF driver_run_step[OF ex_polling] ex_fetched] by simp

lemma ex_run_stopped: "driver_run sortedByN [8] exPolling exStopped"
  using driver_run.more[OF driver_run.more[OF driver_run_step[OF ex_listenedAgain]
          ex_pendingAgain] ex_stopped]
  by simp

lemma ex_run: "driver_run sortedByN [7, 8] (initialState 1) exStopped"
  using driver_run_append[OF ex_run_stopped driver_run_append[OF ex_run_polling ex_run_fetching]]
  by simp

section \<open>The fields passed to added\<close>

lemma delete_key_has_not: "\<not> has_key (delete_key k d) k"
  by (simp add: has_key_def delete_key_def map_of_eq_None_iff delete_notin_dom)

lemma addBuffered_emitted: "addBuffered e i d s = Inr s' \<Longrightarrow> emitted s' = emitted s"
  by (cases "unpublishedBuffer s") (auto simp: addBuffered_def Let_def split: if_splits)

lemma addPublished_emits:
  assumes "addPublished e i d s = Inr s'"
  shows "\<exists>evs. emitted s' = emitted s @ Added i (projectionFn e (delete_key ''_id'' d)) # evs
               \<and> (evs = [] \<or> (\<exists>j. evs = [Removed j]))"
proof -
  obtain pub where pub: "published s = Some pub"
    using assms by (cases "published s") (simp_all add: addPublished_def)
  let ?pub1 = "idmap_set i (sharedProjectionFn e d) pub"
  let ?a = "Added i (projectionFn e (delete_key ''_id'' d))"
  show ?thesis
  proof (cases "limit s \<noteq> 0 \<and> idmap_size ?pub1 > limit s")
    case False
    then have "s' = s\<lparr>published := Some ?pub1, emitted := emitted s @ [?a]\<rparr>"
      using assms pub by (auto simp: addPublished_def Let_def)
    then show ?thesis by simp
  next
    case True
    let ?m = "maxElementId e ?pub1"
    let ?s2 = "s\<lparr>published := Some (idmap_remove ?m ?pub1), emitted := emitted s @ [?a, Removed ?m]\<rparr>"
    from assms pub True obtain od where r: "addBuffered e ?m od ?s2 = Inr s'"
      by (auto simp: addPublished_def Let_def split: if_splits option.splits)
    from addBuffered_emitted[OF r] have "emitted s' = emitted ?s2" by simp
    then show ?thesis by simp
  qed
qed

lemma driverEvent_addedWithoutId:
  "projectionAddsNoId e \<Longrightarrow> driverEvent e ev \<Longrightarrow> addedWithoutId ev"
  by (cases ev) (auto simp: projectionAddsNoId_def driverEvent_def addedWithoutId_def
      delete_key_has_not)

text \<open>
  Claim C10. \<^verbatim>\<open>_addPublished\<close> calls \<^verbatim>\<open>added\<close> once, with the publish projection of
  the document from which \<open>_id\<close> was deleted, and after it at most a call of
  \<^verbatim>\<open>removed\<close>. Over a run of the driver from any state, every call made on the
  multiplexer that is a call of \<^verbatim>\<open>added\<close> passes the publish projection of a document
  from which \<open>_id\<close> was deleted; so when the publish projection gives no \<open>_id\<close> to a
  document that has none, no call of \<^verbatim>\<open>added\<close> of the run passes fields with an
  \<open>_id\<close>.
\<close>

theorem added_fields_have_no_id:
  "(addPublished e i d s = Inr s' \<longrightarrow>
      (\<exists>evs. emitted s' = emitted s @ Added i (projectionFn e (delete_key ''_id'' d)) # evs
             \<and> (evs = [] \<or> (\<exists>j. evs = [Removed j])))
      \<and> \<not> has_key (delete_key ''_id'' d) ''_id'')
   \<and> (driver_run e ws s0 s1 \<longrightarrow>
        (\<exists>evs. emitted s1 = emitted s0 @ evs
               \<and> list_all (driverEvent e) evs
               \<and> (projectionAddsNoId e \<longrightarrow> list_all addedWithoutId evs)))"
proof (intro conjI impI)
  assume "addPublished e i d s = Inr s'"
  then show "\<exists>evs. emitted s' = emitted s @ Added i (projectionFn e (delete_key ''_id'' d)) # evs
               \<and> (evs = [] \<or> (\<exists>j. evs = [Removed j]))"
    by (rule addPublished_emits)
next
  show "\<not> has_key (delete_key ''_id'' d) ''_id''" by (rule delete_key_has_not)
next
  assume "driver_run e ws s0 s1"
  from driver_run_facts[OF this] obtain evs where
    evs: "emitted s1 = emitted s0 @ evs" "list_all (driverEvent e) evs"
    by blast
  have "projectionAddsNoId e \<longrightarrow> list_all addedWithoutId evs"
    using evs(2) driverEvent_addedWithoutId[of e] by (auto simp: list_all_iff)
  with evs show "\<exists>evs. emitted s1 = emitted s0 @ evs
               \<and> list_all (driverEvent e) evs
               \<and> (projectionAddsNoId e \<longrightarrow> list_all addedWithoutId evs)"
    by blast
qed

theorem added_fields_have_no_id_witness:
  "addPublished sortedByN (VNum 1) (docN 1 10) (initialState 1)
     = Inr ((initialState 1)\<lparr>published := Some [(VNum 1, docN 1 10)],
                              emitted := [Added (VNum 1) [(''n'', VNum 10)]]\<rparr>)
   \<and> emitted exStopped = [Added (VNum 1) [(''n'', VNum 10)], Ready, OnFlush [7]]
   \<and> list_all addedWithoutId (emitted exStopped)"
proof -
  have a: "addPublished sortedByN (VNum 1) (docN 1 10) (initialState 1)
     = Inr ((initialState 1)\<lparr>published := Some [(VNum 1, docN 1 10)],
                              emitted := [Added (VNum 1) [(''n'', VNum 10)]]\<rparr>)"
    by (simp add: addPublished_def Let_def initialState_def idmap_defs example_defs)
  have p: "projectionAddsNoId sortedByN" by (simp add: projectionAddsNoId_def sortedByN_def)
  have e0: "emitted (initialState 1) = []" by (simp add: initialState_def)
  have e1: "emitted exStopped = [Added (VNum 1) [(''n'', VNum 10)], Ready, OnFlush [7]]"
    by (simp add: ex_defs)
  from added_fields_have_no_id[of sortedByN "VNum 1" "docN 1 10" "initialState 1" _
      "[7, 8]" "initialState 1" exStopped] ex_run p e0
  have "list_all addedWithoutId (emitted exStopped)" by auto
  with a e1 show ?thesis by simp
qed

section \<open>The generation of a fetch\<close>

lemma pollQuery_generation: "\<not> stopped s \<Longrightarrow> fetchGeneration (pollQuery s) = fetchGeneration s + 1"
  by (simp add: pollQuery_def registerPhaseChange_def)

lemma fetchLoop_head_batch:
  assumes "fetchLoop_head s = Inr (s1, Some b)"
  shows "fetchGeneration s1 = fetchGeneration s + 1 \<and> thisGeneration b = fetchGeneration s1"
  using fetchLoop_head_cases[OF assms] by auto

lemma fetchCallback_discards:
  assumes "\<not> (err = None \<and> \<not> stopped s \<and> phase s = FETCHING
              \<and> fetchGeneration s = thisGeneration b)"
  shows "\<exists>b'. fetchCallback e i err d (s, b) = Inr (s, b')"
proof (cases err)
  case (Some x)
  then show ?thesis by (simp add: fetchCallback_def Let_def)
next
  case None
  with assms have "\<not> (\<not> stopped s \<and> phase s = FETCHING \<and> fetchGeneration s = thisGeneration b)"
    by simp
  with None show ?thesis by (auto simp: fetchCallback_def Let_def)
qed

lemma fetchCallback_applies:
  assumes "fetchCallback e i err d (s, b) = Inr (s', b')"
  shows "if err = None \<and> \<not> stopped s \<and> phase s = FETCHING \<and> fetchGeneration s = thisGeneration b
         then handleDoc e i d s = Inr s' else s' = s"
proof (cases "err = None \<and> \<not> stopped s \<and> phase s = FETCHING \<and> fetchGeneration s = thisGeneration b")
  case True
  with assms show ?thesis by (auto simp: fetchCallback_def Let_def bindE_Inr_iff)
next
  case False
  from fetchCallback_discards[OF this, of e i d] assms False show ?thesis by auto
qed

lemma later_generation_discards:
  assumes "fetchLoop_head s0 = Inr (s1, Some b)" "driver_run e ws s1 s2"
    "fetchGeneration s1 < fetchGeneration s2"
  shows "\<exists>b'. fetchCallback e i err d (s2, b) = Inr (s2, b')"
proof -
  from fetchLoop_head_batch[OF assms(1)] assms(3) have "fetchGeneration s2 \<noteq> thisGeneration b"
    by simp
  then show ?thesis by (intro fetchCallback_discards) simp
qed

text \<open>
  Claim C6. Over a run of the driver \<open>fetchGeneration\<close> does not decrease; a
  \<^verbatim>\<open>_pollQuery\<close> of a driver that is not stopped and each batch of the fetch loop add
  one to it, and the batch keeps the new value as \<open>thisGeneration\<close>. The callback of a
  fetch calls \<^verbatim>\<open>_handleDoc\<close> only without an error, on a driver that is not stopped,
  in the phase FETCHING and with \<open>fetchGeneration\<close> equal to the generation of its batch;
  in every other case it returns and leaves the state of the driver as it is. So the
  answer of a fetch is discarded in every later state of a run whose generation has moved
  on, in particular after a \<^verbatim>\<open>_pollQuery\<close> that followed the launch of its batch.
\<close>

theorem fetch_generation_discards_superseded:
  "(driver_run e ws s s' \<longrightarrow> fetchGeneration s \<le> fetchGeneration s')
   \<and> (\<not> stopped s \<longrightarrow> fetchGeneration (pollQuery s) = fetchGeneration s + 1)
   \<and> (fetchLoop_head s = Inr (s1, Some b) \<longrightarrow>
        fetchGeneration s1 = fetchGeneration s + 1 \<and> thisGeneration b = fetchGeneration s1)
   \<and> (fetchCallback e i err d (t, c) = Inr (t', c') \<longrightarrow>
        (if err = None \<and> \<not> stopped t \<and> phase t = FETCHING
            \<and> fetchGeneration t = thisGeneration c
         then handleDoc e i d t = Inr t' else t' = t))
   \<and> (\<not> (err = None \<and> \<not> stopped t \<and> phase t = FETCHING
           \<and> fetchGeneration t = thisGeneration c) \<longrightarrow>
        (\<exists>c'. fetchCallback e i err d (t, c) = Inr (t, c')))
   \<and> (fetchLoop_head s = Inr (s1, Some b) \<and> driver_run e vs s1 s2
        \<and> fetchGeneration s1 < fetchGeneration s2 \<longrightarrow>
        (\<exists>b'. fetchCallback e i err d (s2, b) = Inr (s2, b')))
   \<and> (fetchLoop_head s = Inr (s1, Some b) \<and> driver_run e vs s1 s2 \<and> \<not> stopped s2
        \<and> driver_run e us (pollQuery s2) s3 \<longrightarrow>
        (\<exists>b'. fetchCallback e i err d (s3, b) = Inr (s3, b')))"
proof (intro conjI impI)
  assume "driver_run e ws s s'"
  from driver_run_facts[OF this] show "fetchGeneration s \<le> fetchGeneration s'" by simp
next
  assume "\<not> stopped s"
  then show "fetchGeneration (pollQuery s) = fetchGeneration s + 1" by (rule pollQuery_generation)
next
  assume h: "fetchLoop_head s = Inr (s1, Some b)"
  from fetchLoop_head_batch[OF h] show "fetchGeneration s1 = fetchGeneration s + 1"
    and "thisGeneration b = fetchGeneration s1" by simp_all
next
  assume "fetchCallback e i err d (t, c) = Inr (t', c')"
  then show "if err = None \<and> \<not> stopped t \<and> phase t = FETCHING
                \<and> fetchGeneration t = thisGeneration c
             then handleDoc e i d t = Inr t' else t' = t"
    by (rule fetchCallback_applies)
next
  assume "\<not> (err = None \<and> \<not> stopped t \<and> phase t = FETCHING
              \<and> fetchGeneration t = thisGeneration c)"
  then show "\<exists>c'. fetchCallback e i err d (t, c) = Inr (t, c')" by (rule fetchCallback_discards)
next
  assume "fetchLoop_head s = Inr (s1, Some b) \<and> driver_run e vs s1 s2
        \<and> fetchGeneration s1 < fetchGeneration s2"
  then show "\<exists>b'. fetchCallback e i err d (s2, b) = Inr (s2, b')"
    using later_generation_discards by blast
next
  assume a: "fetchLoop_head s = Inr (s1, Some b) \<and> driver_run e vs s1 s2 \<and> \<not> stopped s2
        \<and> driver_run e us (pollQuery s2) s3"
  then have "fetchGeneration s1 \<le> fetchGeneration s2"
    and "fetchGeneration (pollQuery s2) \<le> fetchGeneration s3"
    using driver_run_facts by blast+
  moreover have "fetchGeneration (pollQuery s2) = fetchGeneration s2 + 1"
    using a pollQuery_generation by blast
  moreover have "thisGeneration b = fetchGeneration s1" using a fetchLoop_head_batch by blast
  ultimately have "fetchGeneration s3 \<noteq> thisGeneration b" by simp
  then show "\<exists>b'. fetchCallback e i err d (s3, b) = Inr (s3, b')"
    by (intro fetchCallback_discards) simp
qed

theorem fetch_generation_discards_superseded_witness:
  "fetchGeneration exQueued = 0 \<and> fetchGeneration exFetching = 1
   \<and> thisGeneration exBatch = 1
   \<and> fetchGeneration (pollQuery exFetching) = 2
   \<and> fetchGeneration exListenedAgain = 2
   \<and> (\<exists>b'. fetchCallback sortedByN (VNum 5) None (Some (docN 5 5)) (exListenedAgain, exBatch)
               = Inr (exListenedAgain, b'))"
proof -
  have p: "pollQuery exFetching = exPolling"
    by (simp add: pollQuery_def registerPhaseChange_def ex_defs)
  have r: "driver_run sortedByN [8] (pollQuery exFetching) exListenedAgain"
    unfolding p by (rule driver_run_step[OF ex_listenedAgain])
  have n: "\<not> stopped exFetching" by (simp add: ex_defs)
  have g: "fetchGeneration (takeTask FetchLoop exQueued) = 0" "fetchGeneration exQueued = 0"
    "fetchGeneration exListenedAgain = 2"
    by (simp_all add: takeTask_def ex_defs)
  note t = fetch_generation_discards_superseded[of sortedByN "[]" "takeTask FetchLoop exQueued"
      "takeTask FetchLoop exQueued" exFetching exBatch "VNum 5" None "Some (docN 5 5)"
      exListenedAgain exBatch exListenedAgain _ "[]" exFetching "[8]" exListenedAgain]
  from t ex_head g have 1: "fetchGeneration exFetching = 1" "thisGeneration exBatch = 1"
    by simp_all
  from fetch_generation_discards_superseded[of sortedByN "[]" exFetching exFetching]
    n 1 have 2: "fetchGeneration (pollQuery exFetching) = 2" by simp
  from t ex_head driver_run.start[of sortedByN exFetching] n r
  have 3: "\<exists>b'. fetchCallback sortedByN (VNum 5) None (Some (docN 5 5)) (exListenedAgain, exBatch)
               = Inr (exListenedAgain, b')"
    by blast
  from g 1 2 3 show ?thesis by simp
qed

section \<open>The write tokens\<close>
















section \<open>The published set after a throw\<close>

lemma kd_queried: "driver_step keyDropped [] (initialState 1) kdQueried"
proof (rule driver_step.initialQuery)
  show "RunInitialQuery \<in> set (deferred (initialState 1))" by (simp add: initialState_def)
  show "runInitialQuery keyDropped kdFound (takeTask RunInitialQuery (initialState 1))
          = Inr kdQueried"
    by (simp add: runInitialQuery_def kdFound_def takeTask_def doneQuerying_def Let_def
        addMatching_def addPublished_def kdQueried_def initialState_def keyDropped_def
        keepIdAndA_def doc_id_def delete_key_def idmap_defs)
qed

lemma kd_steady: "driver_step keyDropped [] kdQueried kdSteady"
proof (rule driver_step.resumed)
  show "DoneQueryingResume \<in> set (deferred kdQueried)"
    by (simp add: kdQueried_def initialState_def)
  show "doneQuerying_resume (takeTask DoneQueryingResume kdQueried) = Inr kdSteady"
    by (simp add: doneQuerying_resume_def beSteady_def registerPhaseChange_def takeTask_def
        kdQueried_def kdSteady_def initialState_def)
qed

lemma kd_insert:
  "onOplogEntry keyDropped kdInsert kdSteady
     = Inl (Error ''The document just added is overflowing the published set'', kdThrown)"
  by (simp add: onOplogEntry_def handleOplogEntrySteadyOrFetching_def addMatching_def
      addPublished_def Let_def kdInsert_def kdSteady_def kdQueried_def kdThrown_def
      initialState_def keyDropped_def keepIdAndA_def byNDescThenId_def sortKey_def idKey_def
      maxElementId_def doc_id_def delete_key_def idmap_defs)

lemma kd_thrown: "driver_step keyDropped [] kdSteady kdThrown"
proof (rule driver_step.oplogEntryThrew)
  show "\<not> handlesStopped kdSteady" by (simp add: kdSteady_def kdQueried_def initialState_def)
  show "onOplogEntry keyDropped kdInsert kdSteady
     = Inl (Error ''The document just added is overflowing the published set'', kdThrown)"
    by (rule kd_insert)
qed

lemma kd_run_steady: "driver_run keyDropped [] (initialState 1) kdSteady"
  using driver_run.more[OF driver_run_step[OF kd_queried] kd_steady] by simp

lemma kd_run_thrown: "driver_run keyDropped [] (initialState 1) kdThrown"
  using driver_run.more[OF kd_run_steady kd_thrown] by simp

text \<open>The comparator of this query is an order.\<close>

lemma byNDescThenId_order: "comparatorIsOrder keyDropped"
proof -
  have 1: "byNDescThenId a b < 0 \<longleftrightarrow> 0 < byNDescThenId b a" for a b
    by (cases "sortKey a"; cases "sortKey b") (auto simp: byNDescThenId_def)
  have 2: "byNDescThenId a c \<le> 0" if "byNDescThenId a b \<le> 0" "byNDescThenId b c \<le> 0" for a b c
    using that
    by (cases "sortKey a"; cases "sortKey b"; cases "sortKey c")
       (auto simp: byNDescThenId_def split: if_splits)
  show ?thesis unfolding comparatorIsOrder_def using 1 2 by (simp add: keyDropped_def) blast
qed

text \<open>
  Claim C1 fails on the code. The driver is constructed with limit 1 for the query whose
  shared projection drops the sort key, runs its initial query and becomes steady. The
  oplog entry of an insert then makes \<^verbatim>\<open>_addPublished\<close> throw after it has stored the
  document: the driver is not stopped, and its published set holds two documents.
\<close>

theorem published_exceeds_limit_after_throw:
  "driver_run keyDropped [] (initialState 1) kdSteady
   \<and> limit kdSteady = 1 \<and> idmap_size (publishedOf kdSteady) = 1
   \<and> onOplogEntry keyDropped kdInsert kdSteady
       = Inl (Error ''The document just added is overflowing the published set'', kdThrown)
   \<and> driver_step keyDropped [] kdSteady kdThrown
   \<and> driver_run keyDropped [] (initialState 1) kdThrown
   \<and> limit kdThrown = 1 \<and> \<not> stopped kdThrown
   \<and> published kdThrown = Some [(VNum 1, [(''_id'', VNum 1), (''a'', VNum 0)]),
                                 (VNum 2, [(''_id'', VNum 2), (''a'', VNum 0)])]
   \<and> idmap_size (publishedOf kdThrown) = 2"
  using kd_run_steady kd_insert kd_thrown kd_run_thrown
  by (simp add: publishedOf_def idmap_size_def kdThrown_def kdSteady_def kdQueried_def
      initialState_def)

section \<open>Overflow of the published set\<close>

lemma get_of_member: "i \<in> fst ` set m \<Longrightarrow> \<exists>v. idmap_get m i = Some v"
  by (cases "map_of m i") (auto simp: idmap_get_def map_of_eq_None_iff)

lemma comparator_refl: "comparatorIsOrder e \<Longrightarrow> comparator e a a \<le> 0"
proof -
  assume "comparatorIsOrder e"
  then have "comparator e a a < 0 \<longleftrightarrow> 0 < comparator e a a"
    unfolding comparatorIsOrder_def by blast
  then show ?thesis by arith
qed

lemma extreme_is_greatest:
  assumes ord: "comparatorIsOrder e"
  shows "\<forall>x \<in> set (b # xs).
           comparator e (Some (snd x))
             (Some (snd (extreme (\<lambda>a b. comparator e (Some a) (Some b) > 0) b xs))) \<le> 0"
proof (induction xs arbitrary: b)
  case Nil
  then show ?case using comparator_refl[OF ord] by simp
next
  case (Cons x xs)
  let ?better = "\<lambda>a b. comparator e (Some a) (Some b) > 0"
  let ?b' = "if ?better (snd x) (snd b) then x else b"
  let ?r = "extreme ?better ?b' xs"
  have ih: "\<forall>y \<in> set (?b' # xs). comparator e (Some (snd y)) (Some (snd ?r)) \<le> 0"
    by (rule Cons.IH)
  have trans: "\<And>a b c. comparator e a b \<le> 0 \<Longrightarrow> comparator e b c \<le> 0 \<Longrightarrow> comparator e a c \<le> 0"
    using ord unfolding comparatorIsOrder_def by blast
  have anti: "\<And>a b. comparator e a b < 0 \<longleftrightarrow> 0 < comparator e b a"
    using ord unfolding comparatorIsOrder_def by blast
  have b'r: "comparator e (Some (snd ?b')) (Some (snd ?r)) \<le> 0" using ih by simp
  have xb': "comparator e (Some (snd x)) (Some (snd ?b')) \<le> 0"
  proof (cases "?better (snd x) (snd b)")
    case True
    then show ?thesis using comparator_refl[OF ord] by simp
  next
    case False
    then show ?thesis by simp
  qed
  have bb': "comparator e (Some (snd b)) (Some (snd ?b')) \<le> 0"
  proof (cases "?better (snd x) (snd b)")
    case True
    then have "comparator e (Some (snd b)) (Some (snd x)) < 0" using anti by simp
    then show ?thesis using True by simp
  next
    case False
    then show ?thesis using comparator_refl[OF ord] by simp
  qed
  show ?case
  proof
    fix y assume "y \<in> set (b # x # xs)"
    then consider "y = b" | "y = x" | "y \<in> set xs" by auto
    then show "comparator e (Some (snd y)) (Some (snd (extreme ?better b (x # xs)))) \<le> 0"
    proof cases
      case 1 then show ?thesis using trans[OF bb' b'r] by simp
    next
      case 2 then show ?thesis using trans[OF xb' b'r] by simp
    next
      case 3 then show ?thesis using ih by simp
    qed
  qed
qed

lemma set_alist_update: "set (AList.update i v m) \<subseteq> insert (i, v) (set m)"
  by (induction m) auto

lemma alist_update_keeps: "(j, p) \<in> set m \<Longrightarrow> j \<noteq> i \<Longrightarrow> (j, p) \<in> set (AList.update i v m)"
  by (induction m) auto

lemma maxElementId_not_below:
  assumes ord: "comparatorIsOrder e"
    and new: "i \<notin> fst ` set pub"
    and above: "(j, p) \<in> set pub" "comparator e (Some v) (Some p) < 0"
  shows "maxElementId e (idmap_set i v pub) \<noteq> i"
proof
  let ?pub1 = "idmap_set i v pub"
  assume m: "maxElementId e ?pub1 = i"
  obtain x xs where c: "?pub1 = x # xs" by (cases ?pub1) (simp_all add: idmap_set_def)
  let ?r = "extreme (\<lambda>a b. comparator e (Some a) (Some b) > 0) x xs"
  have rm: "?r \<in> set ?pub1" using extreme_mem[of _ x xs] c by simp
  have fr: "fst ?r = i" using m c by (simp add: maxElementId_def)
  have set1: "set ?pub1 \<subseteq> insert (i, v) (set pub)"
    unfolding idmap_set_def by (rule set_alist_update)
  have "?r = (i, v)"
  proof -
    from rm set1 have "?r = (i, v) \<or> ?r \<in> set pub" by auto
    moreover have "?r \<notin> set pub"
    proof
      assume "?r \<in> set pub"
      then have "fst ?r \<in> fst ` set pub" by (rule imageI)
      with fr new show False by simp
    qed
    ultimately show ?thesis by simp
  qed
  then have rv: "snd ?r = v" by simp
  have jn: "j \<noteq> i"
  proof
    assume "j = i"
    with above(1) have "i \<in> fst ` set pub" by force
    with new show False by simp
  qed
  have "(j, p) \<in> set ?pub1"
    unfolding idmap_set_def by (rule alist_update_keeps[OF above(1) jn])
  with extreme_is_greatest[OF ord, of x xs] c
  have "comparator e (Some p) (Some (snd ?r)) \<le> 0" by fastforce
  with rv have "comparator e (Some p) (Some v) \<le> 0" by simp
  moreover have "0 < comparator e (Some p) (Some v)"
    using above(2) ord unfolding comparatorIsOrder_def by blast
  ultimately show False by simp
qed


text \<open>
  With a comparator that is an order and a shared projection that keeps the order, the
  branch of \<^verbatim>\<open>_addPublished\<close> for the document just added is not taken through
  \<^verbatim>\<open>_addMatching\<close> from a state within the limit; and \<^verbatim>\<open>_removePublished\<close> publishes
  the promoted document only below the limit, so neither overflow branch is taken through
  it.
\<close>

lemma addPublished_by_added_iff:
  assumes "addPublished e i d s
             = Inl (Error ''The document just added is overflowing the published set'', s')"
    "published s = Some pub"
  shows "limit s \<noteq> 0 \<and> idmap_size (idmap_set i (sharedProjectionFn e d) pub) = limit s + 1
         \<and> maxElementId e (idmap_set i (sharedProjectionFn e d) pub) = i"
proof -
  let ?pub1 = "idmap_set i (sharedProjectionFn e d) pub"
  let ?m = "maxElementId e ?pub1"
  let ?s2 = "s\<lparr>published := Some (idmap_remove ?m ?pub1),
                 emitted := emitted s @ [Added i (projectionFn e (delete_key ''_id'' d)),
                                         Removed ?m]\<rparr>"
  have over: "limit s \<noteq> 0 \<and> idmap_size ?pub1 > limit s"
    using assms by (auto simp: addPublished_def Let_def split: if_splits)
  have one: "idmap_size ?pub1 = limit s + 1"
    using assms over by (auto simp: addPublished_def Let_def split: if_splits)
  have "?m = i"
  proof (rule ccontr)
    assume ne: "?m \<noteq> i"
    with assms over one have
      r: "(case idmap_get ?pub1 ?m of None \<Rightarrow> Inl (TypeError, ?s2)
           | Some od \<Rightarrow> addBuffered e ?m od ?s2)
          = Inl (Error ''The document just added is overflowing the published set'', s')"
      by (simp add: addPublished_def Let_def)
    show False
    proof (cases "idmap_get ?pub1 ?m")
      case None
      with r show False by simp
    next
      case (Some od)
      with r have "addBuffered e ?m od ?s2
          = Inl (Error ''The document just added is overflowing the published set'', s')"
        by simp
      from addBuffered_thrown[OF this] show False by simp
    qed
  qed
  with over one show ?thesis by simp
qed

lemma size_set_new: "\<not> idmap_has m i \<Longrightarrow> idmap_size (idmap_set i v m) = Suc (idmap_size m)"
  by (induction m) (auto simp: idmap_has_def idmap_set_def idmap_size_def)

lemma addMatching_not_by_added:
  assumes ord: "comparatorIsOrder e" and keeps: "projectionKeepsOrder e"
    and within: "publishedWithinLimit s"
  shows "addMatching e d s
           \<noteq> Inl (Error ''The document just added is overflowing the published set'', s')"
proof
  let ?x = "Error ''The document just added is overflowing the published set''"
  let ?i = "doc_id d"
  assume a: "addMatching e d s = Inl (?x, s')"
  then obtain pub where pub: "published s = Some pub"
    by (cases "published s") (simp_all add: addMatching_def Let_def)
  from a pub have new: "\<not> idmap_has pub ?i"
    by (auto simp: addMatching_def Let_def split: if_splits)
  from addMatching_thrown_cases[OF a] a pub new have ap: "addPublished e ?i d s = Inl (?x, s')"
    using addBuffered_thrown[of e ?i d s ?x s']
    by (cases "unpublishedBuffer s") (auto simp: addMatching_def Let_def split: if_splits)
  let ?pub1 = "idmap_set ?i (sharedProjectionFn e d) pub"
  from addPublished_by_added_iff[OF ap pub] have lim: "limit s \<noteq> 0"
    and one: "idmap_size ?pub1 = limit s + 1" and mx: "maxElementId e ?pub1 = ?i"
    by simp_all
  from one size_set_new[OF new] have full: "idmap_size pub = limit s" by simp
  then have ne: "idmap_size pub > 0" using lim by simp
  from a pub new lim full ap obtain buf where buf: "unpublishedBuffer s = Some buf"
    by (cases "unpublishedBuffer s") (auto simp: addMatching_def Let_def)
  have guard: "comparator e (Some d) (idmap_get pub (maxElementId e pub)) < 0"
  proof (rule ccontr)
    assume n: "\<not> comparator e (Some d) (idmap_get pub (maxElementId e pub)) < 0"
    with a pub new lim full buf ne
    have "addBuffered e ?i d s = Inl (?x, s') \<or> Inr (s\<lparr>safeAppendToBuffer := False\<rparr>) = Inl (?x, s')"
      by (auto simp: addMatching_def Let_def split: if_splits)
    with addBuffered_thrown[of e ?i d s ?x s'] show False by auto
  qed
  have pne: "pub \<noteq> []" using ne by (auto simp: idmap_size_def)
  from get_of_member[OF maxElementId_mem[OF pne]] obtain p where
    p: "idmap_get pub (maxElementId e pub) = Some p" by blast
  then have mem: "(maxElementId e pub, p) \<in> set pub"
    by (auto simp: idmap_get_def dest: map_of_SomeD)
  from guard p keeps have "comparator e (Some (sharedProjectionFn e d)) (Some p) < 0"
    by (simp add: projectionKeepsOrder_def)
  moreover from new have "?i \<notin> fst ` set pub"
    by (simp add: idmap_has_def map_of_eq_None_iff)
  ultimately have "maxElementId e ?pub1 \<noteq> ?i"
    using maxElementId_not_below[OF ord _ mem] by blast
  with mx show False by simp
qed

lemma removePublished_no_overflow:
  assumes "removePublished e i s = Inl (x, s')"
  shows "x \<noteq> Error ''The document just added is overflowing the published set''
       \<and> x \<noteq> Error ''After adding to published, documents are overflowing the set''"
proof (cases "published s")
  case None
  with assms show ?thesis by (simp add: removePublished_def)
next
  case (Some pub)
  let ?s1 = "s\<lparr>published := Some (idmap_remove i pub), emitted := emitted s @ [Removed i]\<rparr>"
  from removePublished_thrown_cases[OF assms Some] consider
      (own) "s' = ?s1 \<or> (\<exists>j s2. removeBuffered j ?s1 = Inr s2 \<and> s' = s2)"
    | (add) j s2 nd where "removeBuffered j ?s1 = Inr s2" "addPublished e j nd s2 = Inl (x, s')"
    by blast
  then show ?thesis
  proof cases
    case own
    show ?thesis
    proof (rule ccontr)
      assume "\<not> ?thesis"
      then have bad: "x = Error ''The document just added is overflowing the published set''
          \<or> x = Error ''After adding to published, documents are overflowing the set''"
        by blast
      have under: "limit s \<noteq> 0 \<and> idmap_size (idmap_remove i pub) < limit s"
        using assms Some by (auto simp: removePublished_def Let_def split: if_splits)
      show False
      proof (cases "unpublishedBuffer s")
        case None
        with assms Some under bad show False
          by (auto simp: removePublished_def Let_def split: if_splits)
      next
        case buf: (Some buf)
        show False
        proof (cases "idmap_size buf = 0")
          case True
          with assms Some under buf bad show False
            by (auto simp: removePublished_def Let_def split: if_splits)
        next
          case False
          let ?j = "minElementId e buf"
          from assms Some under buf False have
            "bindE (removeBuffered ?j ?s1)
                (\<lambda>s2. case idmap_get buf ?j of None \<Rightarrow> Inl (TypeError, s2)
                       | Some nd \<Rightarrow> addPublished e ?j nd s2) = Inl (x, s')"
            by (simp add: removePublished_def Let_def split: if_splits)
          then consider "removeBuffered ?j ?s1 = Inl (x, s')"
            | s2 where "removeBuffered ?j ?s1 = Inr s2"
                "(case idmap_get buf ?j of None \<Rightarrow> Inl (TypeError, s2)
                       | Some nd \<Rightarrow> addPublished e ?j nd s2) = Inl (x, s')"
            unfolding bindE_Inl_iff by blast
          then show False
          proof cases
            case 1
            from removeBuffered_thrown[OF 1] bad show False by auto
          next
            case 2
            from 2(2) bad obtain nd where ap: "addPublished e ?j nd s2 = Inl (x, s')"
              by (cases "idmap_get buf ?j") auto
            from removeBuffered_frame[OF 2(1)] have
              f: "published s2 = Some (idmap_remove i pub)" "limit s2 = limit s" by simp_all
            let ?pub1 = "idmap_set ?j (sharedProjectionFn e nd) (idmap_remove i pub)"
            from size_set_le[of ?j "sharedProjectionFn e nd" "idmap_remove i pub"] under
            have "idmap_size ?pub1 \<le> limit s" by simp
            with ap f bad show False
              using addBuffered_thrown
              by (auto simp: addPublished_def Let_def split: if_splits option.splits)
          qed
        qed
      qed
    qed
  next
    case add
    have under: "limit s \<noteq> 0 \<and> idmap_size (idmap_remove i pub) < limit s"
      using assms Some by (auto simp: removePublished_def Let_def split: if_splits)
    from removeBuffered_frame[OF add(1)] have
      f: "published s2 = Some (idmap_remove i pub)" "limit s2 = limit s" by simp_all
    let ?pub1 = "idmap_set j (sharedProjectionFn e nd) (idmap_remove i pub)"
    from size_set_le[of j "sharedProjectionFn e nd" "idmap_remove i pub"] under
    have le: "idmap_size ?pub1 \<le> limit s" by simp
    show ?thesis
    proof (rule ccontr)
      assume "\<not> ?thesis"
      with add(2) f le show False
        using addBuffered_thrown
        by (auto simp: addPublished_def Let_def split: if_splits option.splits)
    qed
  qed
qed

text \<open>The shared projection of the failing query does not keep the order.\<close>

lemma keyDropped_loses_order: "\<not> projectionKeepsOrder keyDropped"
proof
  assume "projectionKeepsOrder keyDropped"
  then have "comparator keyDropped
               (Some (sharedProjectionFn keyDropped [(''_id'', VNum 2), (''n'', VNum 5)]))
               (Some [(''_id'', VNum 1)])
             = comparator keyDropped (Some [(''_id'', VNum 2), (''n'', VNum 5)])
                 (Some [(''_id'', VNum 1)])"
    unfolding projectionKeepsOrder_def by blast
  then show False
    by (simp add: keyDropped_def keepIdAndA_def byNDescThenId_def sortKey_def idKey_def)
qed

text \<open>
  Claim C7 fails on the code. In the steady state that the driver of the query whose
  shared projection drops the sort key reaches from its construction, the published set
  holds one document, which is the limit, and the buffer is empty. The inserted document sorts before the
  published one, so \<^verbatim>\<open>_addMatching\<close> publishes it; what \<^verbatim>\<open>_addPublished\<close> stores is
  its shared projection, which sorts after the published one, and the branch for the
  document just added is taken. (With a shared projection that keeps the order it is not:
  \<open>addMatching_not_by_added\<close>.)
\<close>

theorem overflow_by_added_document_reached:
  "driver_run keyDropped [] (initialState 1) kdSteady
   \<and> limit kdSteady = 1
   \<and> idmap_size (publishedOf kdSteady) = 1
   \<and> bufferOf kdSteady = []
   \<and> publishedBelowBuffer keyDropped kdSteady
   \<and> comparator keyDropped (Some (op_o (n_op kdInsert))) (maxOf keyDropped (publishedOf kdSteady)) < 0
   \<and> 0 < comparator keyDropped (Some (sharedProjectionFn keyDropped (op_o (n_op kdInsert))))
           (maxOf keyDropped (publishedOf kdSteady))
   \<and> addMatching keyDropped (op_o (n_op kdInsert)) kdSteady
       = Inl (Error ''The document just added is overflowing the published set'', kdThrown)
   \<and> onOplogEntry keyDropped kdInsert kdSteady
       = Inl (Error ''The document just added is overflowing the published set'', kdThrown)"
proof -
  have a: "addMatching keyDropped (op_o (n_op kdInsert)) kdSteady
       = Inl (Error ''The document just added is overflowing the published set'', kdThrown)"
    by (simp add: addMatching_def
      addPublished_def Let_def kdInsert_def kdSteady_def kdQueried_def kdThrown_def
      initialState_def keyDropped_def keepIdAndA_def byNDescThenId_def sortKey_def idKey_def
      maxElementId_def doc_id_def delete_key_def idmap_defs)
  have b: "limit kdSteady = 1" "idmap_size (publishedOf kdSteady) = 1"
    "bufferOf kdSteady = []" "publishedBelowBuffer keyDropped kdSteady"
    by (simp_all add: publishedBelowBuffer_def publishedOf_def
        bufferOf_def kdSteady_def kdQueried_def initialState_def idmap_size_def)
  have c: "comparator keyDropped (Some (op_o (n_op kdInsert)))
             (maxOf keyDropped (publishedOf kdSteady)) < 0"
    "0 < comparator keyDropped (Some (sharedProjectionFn keyDropped (op_o (n_op kdInsert))))
           (maxOf keyDropped (publishedOf kdSteady))"
    by (simp_all add: maxOf_def publishedOf_def kdInsert_def kdSteady_def kdQueried_def
        initialState_def keyDropped_def keepIdAndA_def byNDescThenId_def sortKey_def idKey_def
        maxElementId_def idmap_defs)
  from kd_run_steady a b c kd_insert show ?thesis by simp
qed

section \<open>Removing a document from the matching set\<close>

lemma removeMatching_not_cached:
  assumes "limit s \<noteq> 0" "notCached i s"
  shows "removeMatching e i s = Inr s"
proof -
  from assms obtain pub buf where "published s = Some pub" "\<not> idmap_has pub i"
    "unpublishedBuffer s = Some buf" "\<not> idmap_has buf i"
    by (cases "published s"; cases "unpublishedBuffer s") (simp_all add: notCached_def)
  then show ?thesis using assms(1) by (simp add: removeMatching_def)
qed

lemma addPublished_thrown_error:
  assumes "addPublished e i d s = Inl (x, s')"
  shows "x \<in> {TypeError,
              Error ''After adding to published, documents are overflowing the set'',
              Error ''The document just added is overflowing the published set''}"
proof (cases "published s")
  case None
  then show ?thesis using assms by (simp add: addPublished_def)
next
  case (Some pub)
  then show ?thesis using assms addBuffered_thrown
    by (auto simp: addPublished_def Let_def split: if_splits option.splits)
qed

lemma removePublished_thrown_error:
  assumes "removePublished e i s = Inl (x, s')"
  shows "x \<in> {TypeError,
              Error ''At this phase, buffer can be empty only if published contains the whole matching set'',
              Error ''After adding to published, documents are overflowing the set'',
              Error ''The document just added is overflowing the published set''}"
proof (cases "published s")
  case None
  then show ?thesis using assms by (simp add: removePublished_def)
next
  case (Some pub)
  let ?s1 = "s\<lparr>published := Some (idmap_remove i pub), emitted := emitted s @ [Removed i]\<rparr>"
  show ?thesis
  proof (cases "limit s \<noteq> 0 \<and> idmap_size (idmap_remove i pub) < limit s")
    case False
    with assms Some show ?thesis by (auto simp: removePublished_def Let_def split: if_splits)
  next
    case under: True
    show ?thesis
    proof (cases "unpublishedBuffer s")
      case None
      with assms under Some show ?thesis
        by (simp add: removePublished_def Let_def split: if_splits)
    next
      case buf: (Some buf)
      show ?thesis
      proof (cases "idmap_size buf = 0")
        case True
        with assms under Some buf show ?thesis
          by (simp add: removePublished_def Let_def split: if_splits)
      next
        case False
        let ?j = "minElementId e buf"
        from assms under Some buf False have
          "bindE (removeBuffered ?j ?s1)
                (\<lambda>s2. case idmap_get buf ?j of None \<Rightarrow> Inl (TypeError, s2)
                       | Some nd \<Rightarrow> addPublished e ?j nd s2) = Inl (x, s')"
          by (simp add: removePublished_def Let_def split: if_splits)
        then consider "removeBuffered ?j ?s1 = Inl (x, s')"
          | s2 where "(case idmap_get buf ?j of None \<Rightarrow> Inl (TypeError, s2)
                       | Some nd \<Rightarrow> addPublished e ?j nd s2) = Inl (x, s')"
          unfolding bindE_Inl_iff by blast
        then show ?thesis
        proof cases
          case 1
          from removeBuffered_thrown[OF 1] show ?thesis by simp
        next
          case 2
          then have "x = TypeError \<or> (\<exists>nd. addPublished e ?j nd s2 = Inl (x, s'))"
            by (cases "idmap_get buf ?j") auto
          then show ?thesis using addPublished_thrown_error by blast
        qed
      qed
    qed
  qed
qed

text \<open>
  The guard of \<^verbatim>\<open>_removeMatching\<close> itself throws exactly for an unlimited query and an
  id that is not published.
\<close>

lemma removeMatching_own_throw:
  "(\<exists>s'. removeMatching e i s
           = Inl (Error ''tried to remove something matching but not cached'', s'))
   \<longleftrightarrow> (\<exists>pub. published s = Some pub \<and> \<not> idmap_has pub i \<and> limit s = 0)"
proof (cases "published s")
  case None
  then show ?thesis by (simp add: removeMatching_def)
next
  case (Some pub)
  show ?thesis
  proof (cases "\<not> idmap_has pub i \<and> limit s = 0")
    case True
    then show ?thesis using Some by (simp add: removeMatching_def)
  next
    case False
    have "removeMatching e i s
            \<noteq> Inl (Error ''tried to remove something matching but not cached'', s')" for s'
    proof
      assume a: "removeMatching e i s
                   = Inl (Error ''tried to remove something matching but not cached'', s')"
      from a Some False
      consider "removePublished e i s
                  = Inl (Error ''tried to remove something matching but not cached'', s')"
        | "removeBuffered i s
             = Inl (Error ''tried to remove something matching but not cached'', s')"
        by (cases "unpublishedBuffer s") (auto simp: removeMatching_def split: if_splits)
      then show False
      proof cases
        case 1 from removePublished_thrown_error[OF 1] show False by simp
      next
        case 2 from removeBuffered_thrown[OF 2] show False by simp
      qed
    qed
    then show ?thesis using Some False by auto
  qed
qed

lemma ex_run_steady: "driver_run sortedByN [7] (initialState 1) exSteady"
  using driver_run.more[OF driver_run.more[OF driver_run.more[OF driver_run_step[OF ex_listened]
          ex_pending] ex_queried] ex_steady]
  by simp

text \<open>
  Claim C9 fails on the code. The driver of the query sorted by \<open>n\<close> with limit 1 runs
  its initial query on a collection with two matching documents; the second one is
  dropped, not buffered, and \<open>safeAppendToBuffer\<close> ends false. When the driver is
  steady, the oplog entry of the deletion of the published document calls
  \<^verbatim>\<open>_removeMatching\<close> with an id that is published, and \<^verbatim>\<open>_removeMatching\<close> throws,
  with limit 1: the assertion of \<^verbatim>\<open>_removePublished\<close> on the empty buffer fails.
\<close>

theorem removeMatching_throws_when_limited:
  "driver_run sortedByN [7] (initialState 1) exSteady
   \<and> limit exSteady = 1
   \<and> published exSteady = Some [(VNum 1, docN 1 10)]
   \<and> unpublishedBuffer exSteady = Some []
   \<and> \<not> safeAppendToBuffer exSteady
   \<and> removeMatching sortedByN (VNum 1) exSteady
       = Inl (Error ''At this phase, buffer can be empty only if published contains the whole matching set'',
              exSteady\<lparr>published := Some [],
                       emitted := emitted exSteady @ [Removed (VNum 1)]\<rparr>)
   \<and> onOplogEntry sortedByN deleted exSteady
       = Inl (Error ''At this phase, buffer can be empty only if published contains the whole matching set'',
              exSteady\<lparr>published := Some [],
                       emitted := emitted exSteady @ [Removed (VNum 1)]\<rparr>)"
proof -
  have a: "removeMatching sortedByN (VNum 1) exSteady
       = Inl (Error ''At this phase, buffer can be empty only if published contains the whole matching set'',
              exSteady\<lparr>published := Some [],
                       emitted := emitted exSteady @ [Removed (VNum 1)]\<rparr>)"
    by (simp add: removeMatching_def removePublished_def Let_def ex_defs idmap_defs example_defs)
  have b: "onOplogEntry sortedByN deleted exSteady = removeMatching sortedByN (VNum 1) exSteady"
    by (simp add: onOplogEntry_def handleOplogEntrySteadyOrFetching_def Let_def deleted_def
        ex_defs idmap_defs example_defs)
  have c: "limit exSteady = 1" "published exSteady = Some [(VNum 1, docN 1 10)]"
    "unpublishedBuffer exSteady = Some []" "\<not> safeAppendToBuffer exSteady"
    by (simp_all add: ex_defs)
  from ex_run_steady a b c show ?thesis by simp
qed

end
